theory Spec2Isabelle
  imports Main
begin

section \<open>Python strings and slices\<close>

text \<open>
  A Python \<open>str\<close> is modelled as a \<open>string\<close>; a \<open>char\<close> stands for one code
  point below 256. Integers are Python's unbounded \<open>int\<close>.
\<close>

definition nl :: char where
  "nl = CHR 0x0A"

definition squote :: char where
  "squote = CHR 0x27"

definition dquote :: char where
  "dquote = CHR 0x22"

text \<open>\<open>s.startswith(p)\<close>, \<open>s.endswith(p)\<close> and \<open>sub in s\<close>.\<close>

definition startswith :: "string \<Rightarrow> string \<Rightarrow> bool" where
  "startswith s p = (take (length p) s = p)"

definition endswith :: "string \<Rightarrow> string \<Rightarrow> bool" where
  "endswith s p = (length p \<le> length s \<and> drop (length s - length p) s = p)"

fun str_contains :: "string \<Rightarrow> string \<Rightarrow> bool" where
  "str_contains [] sub = (sub = [])"
| "str_contains (c # cs) sub = (startswith (c # cs) sub \<or> str_contains cs sub)"

text \<open>
  \<open>xs[:n]\<close>: a negative bound counts from the end of the sequence, and a bound
  outside the sequence is clipped.
\<close>

definition py_take :: "int \<Rightarrow> 'a list \<Rightarrow> 'a list" where
  "py_take n xs = (if 0 \<le> n then take (nat n) xs else take (length xs - nat (- n)) xs)"

text \<open>
  \<open>str.isspace\<close> on the code points below 256: the characters that \<open>str.split()\<close>
  and \<open>str.strip()\<close> treat as whitespace.
\<close>

definition isspace :: "char \<Rightarrow> bool" where
  "isspace c = (c \<in> set [CHR 0x09, CHR 0x0A, CHR 0x0B, CHR 0x0C, CHR 0x0D,
                          CHR 0x1C, CHR 0x1D, CHR 0x1E, CHR 0x1F, CHR 0x20,
                          CHR 0x85, CHR 0xA0])"

definition strip :: "string \<Rightarrow> string" where
  "strip s = rev (dropWhile isspace (rev (dropWhile isspace s)))"

text \<open>
  \<open>s.split()\<close> without a separator: the maximal runs of non-whitespace characters.
  The second argument is the word being read.
\<close>

fun split_ws :: "string \<Rightarrow> string \<Rightarrow> string list" where
  "split_ws [] cur = (if cur = [] then [] else [cur])"
| "split_ws (c # cs) cur =
     (if isspace c then (if cur = [] then split_ws cs [] else cur # split_ws cs [])
      else split_ws cs (cur @ [c]))"

text \<open>\<open>s.split(sep)\<close> for a one-character separator: empty pieces are kept.\<close>

fun split_on :: "char \<Rightarrow> string \<Rightarrow> string \<Rightarrow> string list" where
  "split_on sep [] cur = [cur]"
| "split_on sep (c # cs) cur =
     (if c = sep then cur # split_on sep cs [] else split_on sep cs (cur @ [c]))"

text \<open>\<open>sep.join(ws)\<close>.\<close>

fun str_join :: "string \<Rightarrow> string list \<Rightarrow> string" where
  "str_join sep [] = []"
| "str_join sep [w] = w"
| "str_join sep (w # v # ws) = w @ sep @ str_join sep (v # ws)"

text \<open>
  \<open>s.rsplit(' ', 1)[0]\<close>: the part of \<open>s\<close> before its last space, or all of \<open>s\<close>
  when it has no space.
\<close>

definition rsplit1_head :: "string \<Rightarrow> string" where
  "rsplit1_head s =
     (if CHR '' '' \<in> set s then rev (tl (dropWhile (\<lambda>c. c \<noteq> CHR '' '') (rev s))) else s)"

section \<open>Exceptions and the external collaborators\<close>

text \<open>
  The source raises nothing itself; what it calls can. An exception is known to the
  source only through \<open>str(e)\<close>, so it is modelled by its message. A computation that
  can raise returns \<open>exn + 'a\<close>, with \<open>Inl\<close> for the exception.
\<close>

datatype exn = Exception string

fun str_exn :: "exn \<Rightarrow> string" where
  "str_exn (Exception msg) = msg"

text \<open>
  What \<open>crawler.arun(url)\<close> returns, as far as \<open>crawl_single_page\<close> reads it. An
  attribute tested with \<open>hasattr(result, a) and result.a\<close> is given by its value, the
  empty value standing for a missing or falsy attribute; \<open>error\<close> and
  \<open>error_message\<close> are tested with \<open>hasattr\<close> alone, so they are optional.
  An element of \<open>result.links\<close> is a dictionary (given by its \<open>href\<close> entry, if it
  has one), a string, or something else.
\<close>

datatype link = LinkDict "string option" | LinkStr string | LinkOther

record arun_result =
  r_success :: bool
  r_markdown :: string
  r_metadata :: "(string \<times> string) list"
  r_links :: "link list"
  r_html :: string
  r_error :: "string option"
  r_error_message :: "string option"

text \<open>
  The collaborators, for a world of type \<open>'w\<close> (the network, the browser): the four
  functions of \<open>urllib.parse\<close> the source calls (they raise \<open>ValueError\<close> on some
  inputs), the crawler of \<open>crawl4ai\<close> (entering and leaving its context, and
  \<open>arun\<close>), and the HTTP request and XML parse of \<open>parse_sitemap\<close>, which yield the
  response status and the \<open>(tag, text)\<close> of the elements of \<open>root.iter()\<close>.
  A collaborator that reads the world returns the world it leaves behind, so a page
  fetcher may answer differently each time it is asked.
\<close>

record 'w env =
  urldefrag :: "string \<Rightarrow> exn + string"
  urlparse_netloc :: "string \<Rightarrow> exn + string"
  urlparse_path :: "string \<Rightarrow> exn + string"
  urljoin :: "string \<Rightarrow> string \<Rightarrow> exn + string"
  crawler_enter :: "'w \<Rightarrow> (exn + unit) \<times> 'w"
  crawler_exit :: "'w \<Rightarrow> (exn + unit) \<times> 'w"
  arun :: "'w \<Rightarrow> string \<Rightarrow> (exn + arun_result) \<times> 'w"
  sitemap_get :: "'w \<Rightarrow> string \<Rightarrow> (exn + int \<times> (string \<times> string) list) \<times> 'w"

section \<open>URL utilities\<close>

text \<open>\<open>is_sitemap\<close> (lines 13 to 15); \<open>or\<close> does not parse the URL when the first test holds.\<close>

definition is_sitemap :: "'w env \<Rightarrow> string \<Rightarrow> exn + bool" where
  "is_sitemap E url =
     (if endswith url ''sitemap.xml'' then Inr True
      else case urlparse_path E url of
             Inl e \<Rightarrow> Inl e
           | Inr path \<Rightarrow> Inr (str_contains path ''sitemap''))"

text \<open>\<open>is_txt\<close> (lines 17 to 19) looks at the URL string itself.\<close>

definition is_txt :: "string \<Rightarrow> bool" where
  "is_txt url = (endswith url ''.txt'' \<or> endswith url ''llms.txt'' \<or> endswith url ''llms-full.txt'')"

text \<open>\<open>normalize_url\<close> (lines 21 to 23).\<close>

definition normalize_url :: "'w env \<Rightarrow> string \<Rightarrow> exn + string" where
  "normalize_url E url = urldefrag E url"

text \<open>\<open>is_internal_link\<close> (lines 25 to 29).\<close>

definition is_internal_link :: "'w env \<Rightarrow> string \<Rightarrow> string \<Rightarrow> exn + bool" where
  "is_internal_link E base_url link_url =
     (case urlparse_netloc E base_url of
        Inl e \<Rightarrow> Inl e
      | Inr base_domain \<Rightarrow>
          (case urlparse_netloc E link_url of
             Inl e \<Rightarrow> Inl e
           | Inr link_domain \<Rightarrow> Inr (base_domain = link_domain)))"

section \<open>Content utilities\<close>

text \<open>\<open>extract_title_from_content\<close> (lines 299 to 305).\<close>

fun first_heading :: "string list \<Rightarrow> string" where
  "first_heading [] = ''Untitled Document''"
| "first_heading (line # lines) =
     (if startswith (strip line) ''# '' then strip (drop 2 (strip line))
      else first_heading lines)"

definition extract_title_from_content :: "string \<Rightarrow> string" where
  "extract_title_from_content content = first_heading (split_on nl content [])"

text \<open>
  \<open>create_excerpt\<close> (lines 307 to 320). Every pattern of the list is one character,
  so \<open>text.replace(pattern, '')\<close> deletes the occurrences of that character.
\<close>

definition markdown_patterns :: "char list" where
  "markdown_patterns = [CHR ''#'', CHR ''*'', CHR ''_'', CHR 0x60, CHR ''['', CHR '']'',
                        CHR ''('', CHR '')'', CHR ''>'', CHR ''|'']"

definition remove_char :: "char \<Rightarrow> string \<Rightarrow> string" where
  "remove_char pattern text = filter (\<lambda>c. c \<noteq> pattern) text"

definition clean_text :: "string \<Rightarrow> string" where
  "clean_text content =
     str_join '' '' (split_ws (foldl (\<lambda>text pattern. remove_char pattern text) content markdown_patterns) [])"

definition create_excerpt :: "string \<Rightarrow> int \<Rightarrow> string" where
  "create_excerpt content max_length =
     (let text = clean_text content in
      if int (length text) \<le> max_length then text
      else rsplit1_head (py_take max_length text) @ ''...'')"

section \<open>Standard output\<close>

text \<open>
  Every \<open>print(json.dumps(...))\<close> of the source is one event, with the values the
  source puts into the object: the start of the run (line 194), the fetch of a URL
  by \<open>crawl_single_page\<close> (lines 58 to 63), an exception of \<open>arun\<close> (lines 70 to 73:
  the URL and \<open>str(e)\<close>), a sitemap that could not be read (line 51: \<open>str(e)\<close>), the
  parse of a sitemap (line 222), a page of the recursive crawl (lines 154 to 162:
  \<open>pagesProcessed\<close>, \<open>max_pages\<close>, \<open>currentUrl\<close>, \<open>totalPages\<close>, \<open>depth\<close>) and a
  URL of a sitemap (lines 228 to 235: \<open>pagesProcessed\<close>, \<open>totalPages\<close>, \<open>currentUrl\<close>).
\<close>

datatype event =
    Starting
  | Fetching string
  | CrawlFailed string string
  | SitemapFailed string
  | ParsingSitemap
  | ProcessingPage int int string int int
  | ProcessingSitemapUrl int int string

record 'w proc =
  world :: 'w
  stdout :: "event list"

definition print_event :: "event \<Rightarrow> 'w proc \<Rightarrow> 'w proc" where
  "print_event ev p = p\<lparr>stdout := stdout p @ [ev]\<rparr>"

text \<open>The URLs that \<open>crawl_single_page\<close> was called on, in the order of the calls.\<close>

fun fetched :: "event list \<Rightarrow> string list" where
  "fetched [] = []"
| "fetched (Fetching url # evs) = url # fetched evs"
| "fetched (ev # evs) = fetched evs"

section \<open>Sitemap expander\<close>

text \<open>\<open>parse_sitemap\<close> (lines 31 to 54).\<close>

definition parse_sitemap :: "'w env \<Rightarrow> string \<Rightarrow> 'w proc \<Rightarrow> string list \<times> 'w proc" where
  "parse_sitemap E url p =
     (case sitemap_get E (world p) url of
        (Inl e, w) \<Rightarrow>
          ([], print_event (SitemapFailed (''Failed to parse sitemap: '' @ str_exn e)) (p\<lparr>world := w\<rparr>))
      | (Inr (status, elems), w) \<Rightarrow>
          (if status = 200
           then (map snd (filter (\<lambda>(tag, text). endswith tag ''loc'') elems), p\<lparr>world := w\<rparr>)
           else ([], p\<lparr>world := w\<rparr>)))"

section \<open>Single-page crawl step\<close>

text \<open>
  \<open>re.findall(r'href=[\'"]([^\'"]+)[\'"]', html)\<close>: a match is \<open>href=\<close>, a quote, a
  non-empty run of characters that are not quotes, and a quote. The run is greedy, so it
  ends at the first quote; the search goes on after the match, or one character further
  when there is no match here.
\<close>

definition is_quote :: "char \<Rightarrow> bool" where
  "is_quote c = (c = squote \<or> c = dquote)"

definition match_href :: "string \<Rightarrow> (string \<times> string) option" where
  "match_href s =
     (if startswith s ''href='' then
        (case drop 5 s of
           [] \<Rightarrow> None
         | q # s2 \<Rightarrow>
             (let g = takeWhile (\<lambda>c. \<not> is_quote c) s2;
                  s3 = dropWhile (\<lambda>c. \<not> is_quote c) s2
              in if is_quote q \<and> g \<noteq> [] \<and> s3 \<noteq> [] then Some (g, tl s3) else None))
      else None)"

lemma match_href_shorter: "match_href s = Some (g, rest) \<Longrightarrow> length rest < length s"
proof -
  assume m: "match_href s = Some (g, rest)"
  then obtain q s2 where d: "drop 5 s = q # s2"
    and r: "rest = tl (dropWhile (\<lambda>c. \<not> is_quote c) s2)"
    by (auto simp: match_href_def Let_def split: if_splits list.splits)
  have "length rest \<le> length s2"
    unfolding r using length_dropWhile_le [of "\<lambda>c. \<not> is_quote c" s2] by simp
  moreover have "length s2 < length s"
    using arg_cong [OF d, of length] by simp
  ultimately show ?thesis by simp
qed

function findall_href :: "string \<Rightarrow> string list" where
  "findall_href s =
     (if s = [] then []
      else case match_href s of
             Some (g, rest) \<Rightarrow> g # findall_href rest
           | None \<Rightarrow> findall_href (tl s))"
  by pat_completeness auto
termination
  by (relation "measure length") (auto simp: match_href_shorter)

declare findall_href.simps [simp del]

text \<open>The loops of lines 95 to 101 and 109 to 112: \<open>urljoin\<close> may raise.\<close>

fun link_href :: "link \<Rightarrow> string option" where
  "link_href (LinkDict h) = h"
| "link_href (LinkStr s) = Some s"
| "link_href LinkOther = None"

fun join_links :: "'w env \<Rightarrow> string \<Rightarrow> link list \<Rightarrow> exn + string list" where
  "join_links E url [] = Inr []"
| "join_links E url (l # ls) =
     (case link_href l of
        None \<Rightarrow> join_links E url ls
      | Some h \<Rightarrow>
          (case urljoin E url h of
             Inl e \<Rightarrow> Inl e
           | Inr full_url \<Rightarrow>
               (case join_links E url ls of
                  Inl e \<Rightarrow> Inl e
                | Inr links \<Rightarrow> Inr (full_url # links))))"

definition html_links :: "'w env \<Rightarrow> string \<Rightarrow> string \<Rightarrow> exn + string list" where
  "html_links E url html =
     join_links E url
       (map LinkStr (filter (\<lambda>m. startswith m ''http'' \<or> startswith m ''/'') (findall_href html)))"

definition page_links :: "'w env \<Rightarrow> string \<Rightarrow> arun_result \<Rightarrow> exn + string list" where
  "page_links E url result =
     (case join_links E url (r_links result) of
        Inl e \<Rightarrow> Inl e
      | Inr links \<Rightarrow>
          if r_html result \<noteq> [] \<and> links = [] then html_links E url (r_html result)
          else Inr links)"

definition page_title :: "arun_result \<Rightarrow> string" where
  "page_title result =
     (case map_of (r_metadata result) ''title'' of
        Some title \<Rightarrow> title
      | None \<Rightarrow> if r_markdown result \<noteq> [] then extract_title_from_content (r_markdown result) else [])"

definition error_msg :: "arun_result \<Rightarrow> string" where
  "error_msg result =
     (case r_error result of
        Some e \<Rightarrow> e
      | None \<Rightarrow> (case r_error_message result of Some e \<Rightarrow> e | None \<Rightarrow> ''Failed to crawl page''))"

text \<open>
  The dictionary \<open>crawl_single_page\<close> returns: with \<open>success: True\<close> the URL, the
  content, the title and the links; with \<open>success: False\<close> the URL and the error.
\<close>

datatype page_result =
    Fetched string string string "string list"
  | Failed string string

text \<open>\<open>crawl_single_page\<close> (lines 56 to 132).\<close>

definition crawl_single_page :: "'w env \<Rightarrow> string \<Rightarrow> 'w proc \<Rightarrow> (exn + page_result) \<times> 'w proc" where
  "crawl_single_page E url p =
     (let p1 = print_event (Fetching url) p in
      case arun E (world p1) url of
        (Inl e, w) \<Rightarrow>
          (Inr (Failed url (str_exn e)), print_event (CrawlFailed url (str_exn e)) (p1\<lparr>world := w\<rparr>))
      | (Inr result, w) \<Rightarrow>
          if r_success result then
            (case page_links E url result of
               Inl e \<Rightarrow> (Inl e, p1\<lparr>world := w\<rparr>)
             | Inr links \<Rightarrow>
                 (Inr (Fetched url (r_markdown result)
                        (if page_title result = [] then ''Untitled'' else page_title result) links),
                  p1\<lparr>world := w\<rparr>))
          else (Inr (Failed url (error_msg result)), p1\<lparr>world := w\<rparr>))"

section \<open>Recursive crawl scheduler\<close>

text \<open>
  The options dictionary: a key that is absent is \<open>None\<close>, and \<open>options.get\<close> then
  answers the default.
\<close>

record options =
  maxDepth :: "int option"
  maxPages :: "int option"
  followInternalOnly :: "bool option"

definition no_options :: options where
  "no_options = \<lparr>maxDepth = None, maxPages = None, followInternalOnly = None\<rparr>"

text \<open>
  An element of \<open>results\<close>. The recursive crawl stores a \<open>depth\<close>; the single and
  sitemap modes do not.
\<close>

record page =
  pr_url :: string
  pr_title :: string
  pr_content :: string
  pr_depth :: "int option"

text \<open>
  The loop over the links of a page (lines 178 to 184), for the \<open>visited\<close> set, the
  \<open>depth\<close> of the page and the pending queue. \<open>or\<close> calls \<open>is_internal_link\<close> only
  when \<open>follow_internal_only\<close> is set.
\<close>

fun add_links ::
  "'w env \<Rightarrow> string \<Rightarrow> bool \<Rightarrow> string set \<Rightarrow> int \<Rightarrow> string list \<Rightarrow> (string \<times> int) list
   \<Rightarrow> exn + (string \<times> int) list" where
  "add_links E start follow seen depth [] queue = Inr queue"
| "add_links E start follow seen depth (link # links) queue =
     (case normalize_url E link of
        Inl e \<Rightarrow> Inl e
      | Inr normalized_link \<Rightarrow>
          if normalized_link \<notin> seen then
            (if \<not> follow then add_links E start follow seen depth links (queue @ [(normalized_link, depth + 1)])
             else case is_internal_link E start normalized_link of
                    Inl e \<Rightarrow> Inl e
                  | Inr internal \<Rightarrow>
                      if internal
                      then add_links E start follow seen depth links (queue @ [(normalized_link, depth + 1)])
                      else add_links E start follow seen depth links queue)
          else add_links E start follow seen depth links queue)"

text \<open>The local variables of \<open>crawl_recursive\<close>: those set once, and those of the loop.\<close>

record crawl_cfg =
  cfg_start_url :: string
  cfg_max_depth :: int
  cfg_max_pages :: int
  cfg_follow_internal_only :: bool

record crawl_state =
  visited :: "string set"
  to_visit :: "(string \<times> int) list"
  results :: "page list"
  pages_processed :: int

text \<open>The loop condition of line 145.\<close>

definition loop_cond :: "crawl_cfg \<Rightarrow> crawl_state \<Rightarrow> bool" where
  "loop_cond c s = (to_visit s \<noteq> [] \<and> pages_processed s < cfg_max_pages c)"

text \<open>
  One iteration of the loop (lines 146 to 184). \<open>pop(0)\<close> raises on an empty list,
  which the loop condition excludes.
\<close>

definition crawl_iteration ::
  "'w env \<Rightarrow> crawl_cfg \<Rightarrow> crawl_state \<Rightarrow> 'w proc \<Rightarrow> (exn + crawl_state) \<times> 'w proc" where
  "crawl_iteration E c s p =
     (case to_visit s of
        [] \<Rightarrow> (Inl (Exception ''pop from empty list''), p)
      | (url, depth) # rest \<Rightarrow>
          if url \<in> visited s \<or> depth > cfg_max_depth c then (Inr (s\<lparr>to_visit := rest\<rparr>), p)
          else
            (let s1 = s\<lparr>to_visit := rest, visited := insert url (visited s),
                        pages_processed := pages_processed s + 1\<rparr>;
                 p1 = print_event
                        (ProcessingPage (pages_processed s1) (cfg_max_pages c) url
                           (int (length rest) + pages_processed s1) depth) p
             in case crawl_single_page E url p1 of
                  (Inl e, p2) \<Rightarrow> (Inl e, p2)
                | (Inr page_result, p2) \<Rightarrow>
                    (case page_result of
                       Failed u err \<Rightarrow> (Inr s1, p2)
                     | Fetched u content title links \<Rightarrow>
                         (let s2 = s1\<lparr>results := results s1 @
                                     [\<lparr>pr_url = u, pr_title = title, pr_content = content,
                                       pr_depth = Some depth\<rparr>]\<rparr>
                          in if depth < cfg_max_depth c then
                               (case add_links E (cfg_start_url c) (cfg_follow_internal_only c)
                                       (visited s2) depth links (to_visit s2) of
                                  Inl e \<Rightarrow> (Inl e, p2)
                                | Inr queue \<Rightarrow> (Inr (s2\<lparr>to_visit := queue\<rparr>), p2))
                             else (Inr s2, p2)))))"

text \<open>
  An iteration that returns either leaves \<open>pages_processed\<close> as it is and shortens the
  queue, or adds one to \<open>pages_processed\<close>.
\<close>

lemma crawl_iteration_progress:
  assumes "crawl_iteration E c s p = (Inr s', p')"
  shows "(pages_processed s' = pages_processed s \<and> length (to_visit s') < length (to_visit s))
         \<or> pages_processed s' = pages_processed s + 1"
  using assms
  by (auto simp: crawl_iteration_def Let_def
           split: list.splits if_splits prod.splits sum.splits page_result.splits)

text \<open>The loop of lines 145 to 184.\<close>

function crawl_loop ::
  "'w env \<Rightarrow> crawl_cfg \<Rightarrow> crawl_state \<Rightarrow> 'w proc \<Rightarrow> (exn + crawl_state) \<times> 'w proc" where
  "crawl_loop E c s p =
     (if loop_cond c s then
        (case crawl_iteration E c s p of
           (Inl e, p') \<Rightarrow> (Inl e, p')
         | (Inr s', p') \<Rightarrow> crawl_loop E c s' p')
      else (Inr s, p))"
  by pat_completeness auto
termination
proof (relation "measures [\<lambda>(E, c, s, p). nat (cfg_max_pages c - pages_processed s),
                           \<lambda>(E, c, s, p). length (to_visit s)]", goal_cases)
  case 1
  show ?case by simp
next
  case (2 E c s p e p' s')
  from 2 have it: "crawl_iteration E c s p = (Inr s', p')"
    and lt: "pages_processed s < cfg_max_pages c"
    by (simp_all add: loop_cond_def)
  from crawl_iteration_progress [OF it] lt show ?case by auto
qed

declare crawl_loop.simps [simp del]

text \<open>\<open>crawl_recursive\<close> (lines 134 to 186).\<close>

definition crawl_cfg_of :: "string \<Rightarrow> options \<Rightarrow> crawl_cfg" where
  "crawl_cfg_of start options =
     \<lparr>cfg_start_url = start,
      cfg_max_depth = (case maxDepth options of None \<Rightarrow> 3 | Some d \<Rightarrow> d),
      cfg_max_pages = (case maxPages options of None \<Rightarrow> 50 | Some n \<Rightarrow> n),
      cfg_follow_internal_only = (case followInternalOnly options of None \<Rightarrow> True | Some b \<Rightarrow> b)\<rparr>"

definition initial_state :: "string \<Rightarrow> crawl_state" where
  "initial_state seed = \<lparr>visited = {}, to_visit = [(seed, 0)], results = [], pages_processed = 0\<rparr>"

definition crawl_recursive ::
  "'w env \<Rightarrow> string \<Rightarrow> options \<Rightarrow> 'w proc \<Rightarrow> (exn + page list) \<times> 'w proc" where
  "crawl_recursive E start options p =
     (case normalize_url E start of
        Inl e \<Rightarrow> (Inl e, p)
      | Inr seed \<Rightarrow>
          (case crawl_loop E (crawl_cfg_of start options) (initial_state seed) p of
             (Inl e, p') \<Rightarrow> (Inl e, p')
           | (Inr s, p') \<Rightarrow> (Inr (results s), p')))"

text \<open>
  The loop cut off after \<open>n\<close> iterations: \<open>None\<close> when it has not stopped by then.
\<close>

fun crawl_fuel ::
  "nat \<Rightarrow> 'w env \<Rightarrow> crawl_cfg \<Rightarrow> crawl_state \<Rightarrow> 'w proc \<Rightarrow> ((exn + crawl_state) \<times> 'w proc) option" where
  "crawl_fuel 0 E c s p = (if loop_cond c s then None else Some (Inr s, p))"
| "crawl_fuel (Suc n) E c s p =
     (if loop_cond c s then
        (case crawl_iteration E c s p of
           (Inl e, p') \<Rightarrow> Some (Inl e, p')
         | (Inr s', p') \<Rightarrow> crawl_fuel n E c s' p')
      else Some (Inr s, p))"

text \<open>
  The state at the start of iteration \<open>n\<close> (counting from 0): \<open>None\<close> when the loop
  stopped or raised before.
\<close>

fun crawl_steps ::
  "nat \<Rightarrow> 'w env \<Rightarrow> crawl_cfg \<Rightarrow> crawl_state \<Rightarrow> 'w proc \<Rightarrow> (crawl_state \<times> 'w proc) option" where
  "crawl_steps 0 E c s p = Some (s, p)"
| "crawl_steps (Suc n) E c s p =
     (if loop_cond c s then
        (case crawl_iteration E c s p of
           (Inl e, p') \<Rightarrow> None
         | (Inr s', p') \<Rightarrow> crawl_steps n E c s' p')
      else None)"

section \<open>Mode dispatcher and aggregator\<close>

text \<open>
  The dictionary \<open>scrape_url\<close> returns: an error with its message, or a result.
  \<open>res_pages\<close> is the \<open>pages\<close> entry of the metadata, which only a combined result
  has.
\<close>

record crawl_result =
  res_title :: string
  res_content :: string
  res_excerpt :: string
  res_url :: string
  res_pagesCount :: int
  res_mode :: string
  res_pages :: "(string \<times> string) list option"

datatype outcome = Error string | Result crawl_result

text \<open>The automatic choice of the mode (lines 199 to 206).\<close>

definition resolve_mode :: "'w env \<Rightarrow> string \<Rightarrow> string \<Rightarrow> exn + string" where
  "resolve_mode E url mode =
     (if mode = ''auto'' then
        (if is_txt url then Inr ''single''
         else case is_sitemap E url of
                Inl e \<Rightarrow> Inl e
              | Inr sitemap \<Rightarrow> if sitemap then Inr ''sitemap'' else Inr ''recursive'')
      else Inr mode)"

text \<open>
  The loop over the URLs of a sitemap (lines 227 to 244): \<open>i\<close> is the index of
  \<open>enumerate\<close> and \<open>n_urls\<close> is \<open>len(sitemap_urls)\<close>.
\<close>

fun crawl_sitemap_urls ::
  "'w env \<Rightarrow> int \<Rightarrow> int \<Rightarrow> string list \<Rightarrow> page list \<Rightarrow> 'w proc \<Rightarrow> (exn + page list) \<times> 'w proc" where
  "crawl_sitemap_urls E n_urls i [] pages p = (Inr pages, p)"
| "crawl_sitemap_urls E n_urls i (sitemap_url # urls) pages p =
     (case crawl_single_page E sitemap_url (print_event (ProcessingSitemapUrl (i + 1) n_urls sitemap_url) p) of
        (Inl e, p') \<Rightarrow> (Inl e, p')
      | (Inr page_result, p') \<Rightarrow>
          (case page_result of
             Failed u err \<Rightarrow> crawl_sitemap_urls E n_urls (i + 1) urls pages p'
           | Fetched u content title links \<Rightarrow>
               crawl_sitemap_urls E n_urls (i + 1) urls
                 (pages @ [\<lparr>pr_url = u, pr_title = title, pr_content = content, pr_depth = None\<rparr>]) p'))"

text \<open>The three modes (lines 208 to 248); any other mode leaves \<open>results\<close> empty.\<close>

definition collect_results ::
  "'w env \<Rightarrow> string \<Rightarrow> string \<Rightarrow> options \<Rightarrow> 'w proc \<Rightarrow> (exn + page list) \<times> 'w proc" where
  "collect_results E url mode options p =
     (if mode = ''single'' then
        (case crawl_single_page E url p of
           (Inl e, p') \<Rightarrow> (Inl e, p')
         | (Inr page_result, p') \<Rightarrow>
             (case page_result of
                Failed u err \<Rightarrow> (Inr [], p')
              | Fetched u content title links \<Rightarrow>
                  (Inr [\<lparr>pr_url = u, pr_title = title, pr_content = content, pr_depth = None\<rparr>], p')))
      else if mode = ''sitemap'' then
        (case parse_sitemap E url (print_event ParsingSitemap p) of
           (sitemap_urls, p') \<Rightarrow>
             if sitemap_urls \<noteq> [] then
               crawl_sitemap_urls E (int (length sitemap_urls)) 0
                 (py_take (case maxPages options of None \<Rightarrow> 50 | Some n \<Rightarrow> n) sitemap_urls) [] p'
             else (Inr [], p'))
      else if mode = ''recursive'' then crawl_recursive E url options p
      else (Inr [], p))"

text \<open>The header of a page in the combined content (line 279).\<close>

definition page_header :: "page \<Rightarrow> string" where
  "page_header page =
     [nl, nl] @ ''## '' @ pr_title page @ [nl] @ ''*Source: '' @ pr_url page @ ''*'' @ [nl, nl]"

text \<open>The loop of lines 278 to 280, from the content combined so far.\<close>

fun combine_content :: "string \<Rightarrow> page list \<Rightarrow> string" where
  "combine_content combined_content [] = combined_content"
| "combine_content combined_content (page # pages) =
     combine_content (combined_content @ page_header page @ pr_content page) pages"

text \<open>The results processed (lines 250 to 294).\<close>

definition aggregate :: "string \<Rightarrow> string \<Rightarrow> page list \<Rightarrow> outcome" where
  "aggregate url mode pages =
     (case pages of
        [] \<Rightarrow> Error ''No content could be extracted from the URL''
      | [page] \<Rightarrow>
          Result \<lparr>res_title = pr_title page, res_content = pr_content page,
                  res_excerpt = create_excerpt (pr_content page) 300, res_url = url,
                  res_pagesCount = 1, res_mode = mode, res_pages = None\<rparr>
      | first # _ \<Rightarrow>
          Result \<lparr>res_title = pr_title first, res_content = combine_content [] pages,
                  res_excerpt = create_excerpt (combine_content [] pages) 300, res_url = url,
                  res_pagesCount = int (length pages), res_mode = mode,
                  res_pages = Some (map (\<lambda>r. (pr_url r, pr_title r)) pages)\<rparr>)"

text \<open>
  The body of the \<open>async with\<close> (lines 198 to 294): what it returns, or the exception
  that leaves it.
\<close>

definition scrape_body ::
  "'w env \<Rightarrow> string \<Rightarrow> string \<Rightarrow> options \<Rightarrow> 'w proc \<Rightarrow> (exn + outcome) \<times> 'w proc" where
  "scrape_body E url mode options p =
     (case resolve_mode E url mode of
        Inl e \<Rightarrow> (Inl e, p)
      | Inr resolved \<Rightarrow>
          (case collect_results E url resolved options p of
             (Inl e, p') \<Rightarrow> (Inl e, p')
           | (Inr pages, p') \<Rightarrow> (Inr (aggregate url resolved pages), p')))"

text \<open>
  \<open>scrape_url\<close> (lines 188 to 297). The crawler's context is entered before the body
  and left after it, also when the body raises; an exception of any of the three is
  caught by line 296 and becomes an error object.
\<close>

definition scrape_url :: "'w env \<Rightarrow> string \<Rightarrow> string \<Rightarrow> options \<Rightarrow> 'w proc \<Rightarrow> outcome \<times> 'w proc" where
  "scrape_url E url mode options p =
     (let p1 = print_event Starting p in
      case crawler_enter E (world p1) of
        (Inl e, w) \<Rightarrow> (Error (str_exn e), p1\<lparr>world := w\<rparr>)
      | (Inr u, w) \<Rightarrow>
          (case scrape_body E url mode options (p1\<lparr>world := w\<rparr>) of
             (r, p2) \<Rightarrow>
               (case crawler_exit E (world p2) of
                  (Inl e, w') \<Rightarrow> (Error (str_exn e), p2\<lparr>world := w'\<rparr>)
                | (Inr u', w') \<Rightarrow>
                    (case r of
                       Inl e \<Rightarrow> (Error (str_exn e), p2\<lparr>world := w'\<rparr>)
                     | Inr out \<Rightarrow> (out, p2\<lparr>world := w'\<rparr>)))))"

section \<open>The standard library on plain URLs, and a site of two pages\<close>

text \<open>
  \<open>urllib.parse\<close> is not part of the repository; the theorems below hold for every
  behaviour of it. For the concrete runs, \<open>urlsplit\<close> is written out as CPython has
  it, for URLs without control characters and without a bracketed host: the scheme up
  to the first colon, the network location after \<open>//\<close> up to the next \<open>/\<close>, \<open>?\<close>
  or \<open>#\<close>, then the fragment and the query. A bracket without its partner in the
  network location raises \<open>ValueError\<close>.
\<close>

record url_parts =
  u_scheme :: string
  u_netloc :: string
  u_path :: string
  u_query :: string
  u_fragment :: string

definition scheme_chars :: string where
  "scheme_chars = ''abcdefghijklmnopqrstuvwxyzABCDEFGHIJKLMNOPQRSTUVWXYZ0123456789+-.''"

definition ascii_lower :: "char \<Rightarrow> char" where
  "ascii_lower c =
     (case map_of (zip ''ABCDEFGHIJKLMNOPQRSTUVWXYZ'' ''abcdefghijklmnopqrstuvwxyz'') c of
        Some l \<Rightarrow> l
      | None \<Rightarrow> c)"

definition cut_at :: "char \<Rightarrow> string \<Rightarrow> string \<times> string" where
  "cut_at c s = (takeWhile (\<lambda>x. x \<noteq> c) s, drop 1 (dropWhile (\<lambda>x. x \<noteq> c) s))"

definition split_scheme :: "string \<Rightarrow> string \<times> string" where
  "split_scheme url =
     (let s = takeWhile (\<lambda>x. x \<noteq> CHR '':'') url in
      if CHR '':'' \<in> set url \<and> s \<noteq> [] \<and> hd s \<in> set (take 52 scheme_chars)
         \<and> list_all (\<lambda>x. x \<in> set scheme_chars) s
      then (map ascii_lower s, drop (length s + 1) url)
      else ([], url))"

definition urlsplit :: "string \<Rightarrow> exn + url_parts" where
  "urlsplit url =
     (let (scheme, rest) = split_scheme url;
          netloc = (if take 2 rest = ''//'' then takeWhile (\<lambda>x. x \<notin> set ''/?#'') (drop 2 rest) else []);
          rest2 = (if take 2 rest = ''//'' then dropWhile (\<lambda>x. x \<notin> set ''/?#'') (drop 2 rest) else rest);
          (rest3, fragment) = cut_at CHR ''#'' rest2;
          (path, query) = cut_at CHR ''?'' rest3
      in if (CHR ''['' \<in> set netloc) \<noteq> (CHR '']'' \<in> set netloc)
         then Inl (Exception ''Invalid IPv6 URL'')
         else Inr \<lparr>u_scheme = scheme, u_netloc = netloc, u_path = path, u_query = query,
                   u_fragment = fragment\<rparr>)"

text \<open>
  \<open>urlparse(url).path\<close>: for a scheme that has parameters, the path ends at the first
  \<open>;\<close> of its last segment.
\<close>

definition uses_params :: "string list" where
  "uses_params = [[], ''ftp'', ''hdl'', ''prospero'', ''http'', ''imap'', ''https'', ''shttp'',
                  ''rtsp'', ''rtspu'', ''sip'', ''sips'', ''mms'', ''sftp'', ''tel'']"

definition strip_params :: "string \<Rightarrow> string" where
  "strip_params path =
     (let last_segment = rev (takeWhile (\<lambda>x. x \<noteq> CHR ''/'') (rev path));
          before = take (length path - length last_segment) path
      in before @ takeWhile (\<lambda>x. x \<noteq> CHR '';'') last_segment)"

definition std_path :: "string \<Rightarrow> exn + string" where
  "std_path url =
     (case urlsplit url of
        Inl e \<Rightarrow> Inl e
      | Inr parts \<Rightarrow>
          Inr (if u_scheme parts \<in> set uses_params then strip_params (u_path parts) else u_path parts))"

definition std_netloc :: "string \<Rightarrow> exn + string" where
  "std_netloc url = (case urlsplit url of Inl e \<Rightarrow> Inl e | Inr parts \<Rightarrow> Inr (u_netloc parts))"

text \<open>
  \<open>urldefrag(url)[0]\<close>: a URL without \<open>#\<close> is returned as it is; otherwise it is put
  together again without its fragment.
\<close>

definition uses_netloc :: "string list" where
  "uses_netloc = [[], ''ftp'', ''http'', ''gopher'', ''nntp'', ''telnet'', ''imap'', ''wais'', ''file'',
                  ''mms'', ''https'', ''shttp'', ''snews'', ''prospero'', ''rtsp'', ''rtspu'', ''rsync'',
                  ''svn'', ''svn+ssh'', ''sftp'', ''nfs'', ''git'', ''git+ssh'', ''ws'', ''wss'']"

definition urlunsplit :: "url_parts \<Rightarrow> string" where
  "urlunsplit parts =
     (let url1 = (if u_netloc parts \<noteq> [] \<or>
                    (u_scheme parts \<noteq> [] \<and> u_scheme parts \<in> set uses_netloc \<and> take 2 (u_path parts) \<noteq> ''//'')
                  then ''//'' @ u_netloc parts @
                       (if u_path parts \<noteq> [] \<and> take 1 (u_path parts) \<noteq> ''/'' then ''/'' @ u_path parts
                        else u_path parts)
                  else u_path parts);
          url2 = (if u_scheme parts \<noteq> [] then u_scheme parts @ '':'' @ url1 else url1);
          url3 = (if u_query parts \<noteq> [] then url2 @ ''?'' @ u_query parts else url2)
      in if u_fragment parts \<noteq> [] then url3 @ ''#'' @ u_fragment parts else url3)"

definition std_urldefrag :: "string \<Rightarrow> exn + string" where
  "std_urldefrag url =
     (if CHR ''#'' \<in> set url then
        (case urlsplit url of
           Inl e \<Rightarrow> Inl e
         | Inr parts \<Rightarrow> Inr (urlunsplit (parts\<lparr>u_fragment := []\<rparr>)))
      else Inr url)"

text \<open>
  \<open>urljoin(base, url)\<close> where \<open>url\<close> is empty or an absolute URL in the scheme of
  \<open>base\<close> with a network location, the only links of the site below: the base, or the
  link put together again.
\<close>

definition std_urljoin :: "string \<Rightarrow> string \<Rightarrow> exn + string" where
  "std_urljoin base url =
     (if base = [] then Inr url
      else if url = [] then Inr base
      else case urlsplit base of
             Inl e \<Rightarrow> Inl e
           | Inr bparts \<Rightarrow>
               (case urlsplit url of
                  Inl e \<Rightarrow> Inl e
                | Inr parts \<Rightarrow> Inr (urlunsplit parts)))"

text \<open>
  A site of two pages, A and B, each linking to the other. The world has no state;
  the crawler starts and stops without an exception; there is no sitemap.
\<close>

definition url_A :: string where
  "url_A = ''https://x.test/a''"

definition url_B :: string where
  "url_B = ''https://x.test/b''"

definition site_page :: "string \<Rightarrow> link list \<Rightarrow> arun_result" where
  "site_page heading links =
     \<lparr>r_success = True, r_markdown = ''# '' @ heading, r_metadata = [], r_links = links,
      r_html = [], r_error = None, r_error_message = None\<rparr>"

definition site_arun :: "unit \<Rightarrow> string \<Rightarrow> (exn + arun_result) \<times> unit" where
  "site_arun w url =
     (if url = url_A then (Inr (site_page ''A'' [LinkStr url_B]), w)
      else if url = url_B then (Inr (site_page ''B'' [LinkStr url_A]), w)
      else (Inl (Exception ''net::ERR_NAME_NOT_RESOLVED''), w))"

definition site :: "unit env" where
  "site = \<lparr>urldefrag = std_urldefrag, urlparse_netloc = std_netloc, urlparse_path = std_path,
            urljoin = std_urljoin,
            crawler_enter = (\<lambda>w. (Inr (), w)), crawler_exit = (\<lambda>w. (Inr (), w)),
            arun = site_arun,
            sitemap_get = (\<lambda>w url. (Inl (Exception ''404''), w))\<rparr>"

definition quiet :: "unit proc" where
  "quiet = \<lparr>world = (), stdout = []\<rparr>"

text \<open>The options and the two page records of the crawl of this site.\<close>

definition opts_5_10 :: options where
  "opts_5_10 = \<lparr>maxDepth = Some 5, maxPages = Some 10, followInternalOnly = None\<rparr>"

definition page_A :: page where
  "page_A = \<lparr>pr_url = url_A, pr_title = ''A'', pr_content = ''# A'', pr_depth = Some 0\<rparr>"

definition page_B :: page where
  "page_B = \<lparr>pr_url = url_B, pr_title = ''B'', pr_content = ''# B'', pr_depth = Some 1\<rparr>"

text \<open>
  The same site, where page A also links to another host (in a dictionary with an
  \<open>href\<close>) and carries a link that is neither a dictionary nor a string.
\<close>

definition url_other :: string where
  "url_other = ''https://other.test/''"

definition portal_arun :: "unit \<Rightarrow> string \<Rightarrow> (exn + arun_result) \<times> unit" where
  "portal_arun w url =
     (if url = url_A
      then (Inr (site_page ''A'' [LinkStr url_B, LinkDict (Some url_other), LinkOther]), w)
      else site_arun w url)"

definition portal :: "unit env" where
  "portal = site\<lparr>arun := portal_arun\<rparr>"

text \<open>
  The same site with a sitemap that lists A, B and a third URL C, which does not
  resolve. ElementTree gives each tag with its namespace in braces.
\<close>

definition url_C :: string where
  "url_C = ''https://x.test/c''"

definition url_sitemap :: string where
  "url_sitemap = ''https://x.test/sitemap.xml''"

definition sitemap_ns :: string where
  "sitemap_ns = ''{http://www.sitemaps.org/schemas/sitemap/0.9}''"

definition sitemap_elems :: "(string \<times> string) list" where
  "sitemap_elems =
     [(sitemap_ns @ ''urlset'', []),
      (sitemap_ns @ ''url'', []), (sitemap_ns @ ''loc'', url_A),
      (sitemap_ns @ ''url'', []), (sitemap_ns @ ''loc'', url_B),
      (sitemap_ns @ ''url'', []), (sitemap_ns @ ''loc'', url_C)]"

definition mapped :: "unit env" where
  "mapped = site\<lparr>sitemap_get :=
               (\<lambda>w url. (if url = url_sitemap then Inr (200, sitemap_elems)
                          else Inl (Exception ''404''), w))\<rparr>"

text \<open>Three page records, as the sitemap mode collects them.\<close>

definition three_pages :: "page list" where
  "three_pages =
     [\<lparr>pr_url = ''u1'', pr_title = ''T1'', pr_content = ''one'', pr_depth = None\<rparr>,
      \<lparr>pr_url = ''u2'', pr_title = ''T2'', pr_content = ''two'', pr_depth = None\<rparr>,
      \<lparr>pr_url = ''u3'', pr_title = ''T3'', pr_content = ''three'', pr_depth = None\<rparr>]"

section \<open>Invariants of the crawl loop\<close>

text \<open>A URL shares its network location with the start URL.\<close>

definition internal :: "'w env \<Rightarrow> string \<Rightarrow> string \<Rightarrow> bool" where
  "internal E start u = (\<exists>loc. urlparse_netloc E start = Inr loc \<and> urlparse_netloc E u = Inr loc)"

text \<open>
  The results are within the depth budget, there are no more of them than pages
  processed, and no more pages are processed than the page budget allows.
\<close>

definition within_budget :: "crawl_cfg \<Rightarrow> crawl_state \<Rightarrow> bool" where
  "within_budget c s =
     ((\<forall>r \<in> set (results s). \<exists>d. pr_depth r = Some d \<and> d \<le> cfg_max_depth c)
      \<and> int (length (results s)) \<le> pages_processed s
      \<and> pages_processed s \<le> max 0 (cfg_max_pages c))"

text \<open>
  The URLs fetched since the crawl began (after those of \<open>before\<close>) are distinct and
  are the visited set; the results are pages of distinct URLs among them.
\<close>

definition fetched_once :: "string list \<Rightarrow> crawl_state \<Rightarrow> 'w proc \<Rightarrow> bool" where
  "fetched_once before s p =
     (\<exists>new. fetched (stdout p) = before @ new \<and> distinct new \<and> set new = visited s
            \<and> distinct (map pr_url (results s)) \<and> set (map pr_url (results s)) \<subseteq> set new)"

section \<open>Theorems: URL and content utilities\<close>

lemma endswith_iff: "endswith s p \<longleftrightarrow> (\<exists>stem. s = stem @ p)"
proof
  assume "endswith s p"
  then have "s = take (length s - length p) s @ p"
    by (metis append_take_drop_id endswith_def)
  then show "\<exists>stem. s = stem @ p" ..
next
  assume "\<exists>stem. s = stem @ p"
  then show "endswith s p" by (auto simp: endswith_def)
qed

lemma endswith_longer: "endswith s (q @ p) \<Longrightarrow> endswith s p"
proof -
  assume "endswith s (q @ p)"
  then obtain stem where "s = stem @ q @ p" unfolding endswith_iff ..
  then have "s = (stem @ q) @ p" by simp
  then show "endswith s p" unfolding endswith_iff ..
qed

lemmas std_defs = std_path_def std_netloc_def std_urldefrag_def std_urljoin_def urlsplit_def
  urlunsplit_def split_scheme_def cut_at_def scheme_chars_def ascii_lower_def uses_params_def
  uses_netloc_def strip_params_def Let_def

text \<open>
  C9, as the code has it: \<open>is_txt\<close> tests the whole URL string, query and fragment
  included, not its path component. It holds exactly of the strings that end with
  \<open>.txt\<close>; the tests for \<open>llms.txt\<close> and \<open>llms-full.txt\<close> add nothing to that.
\<close>

theorem is_txt_whole_url: "is_txt url \<longleftrightarrow> (\<exists>stem. url = stem @ ''.txt'')"
proof -
  have a: "endswith url ''llms.txt'' \<Longrightarrow> endswith url ''.txt''"
    using endswith_longer [of url "''llms''" "''.txt''"] by simp
  have b: "endswith url ''llms-full.txt'' \<Longrightarrow> endswith url ''.txt''"
    using endswith_longer [of url "''llms-full''" "''.txt''"] by simp
  have "is_txt url \<longleftrightarrow> endswith url ''.txt''"
    unfolding is_txt_def using a b by blast
  then show ?thesis by (simp only: endswith_iff)
qed

text \<open>
  C9 as stated fails in both directions: a URL whose query ends with \<open>.txt\<close> is
  taken for a text file though its path is \<open>/page\<close>, and a URL whose path is
  \<open>/a.txt\<close> is not, because a query follows.
\<close>

theorem is_txt_path_counterexample:
  "is_txt ''https://x.test/page?f=a.txt''
   \<and> std_path ''https://x.test/page?f=a.txt'' = Inr ''/page''
   \<and> \<not> (endswith ''/page'' ''.txt'' \<or> endswith ''/page'' ''llms.txt'' \<or> endswith ''/page'' ''llms-full.txt'')
   \<and> \<not> is_txt ''https://x.test/a.txt?v=1''
   \<and> std_path ''https://x.test/a.txt?v=1'' = Inr ''/a.txt''
   \<and> endswith ''/a.txt'' ''.txt''"
  by (simp add: is_txt_def endswith_def std_defs)










lemmas excerpt_defs = create_excerpt_def clean_text_def markdown_patterns_def remove_char_def
  isspace_def rsplit1_head_def py_take_def




section \<open>Theorems: the recursive crawl\<close>

lemma fetched_append: "fetched (evs @ evs') = fetched evs @ fetched evs'"
  by (induction evs rule: fetched.induct) simp_all

lemma crawl_single_page_fetched:
  assumes "crawl_single_page E url p = (r, p')"
  shows "fetched (stdout p') = fetched (stdout p) @ [url]"
  using assms
  by (auto simp: crawl_single_page_def print_event_def Let_def fetched_append
           split: prod.splits sum.splits if_splits)

lemma crawl_single_page_url:
  assumes "crawl_single_page E url p = (Inr (Fetched u content title links), p')"
  shows "u = url"
  using assms
  by (auto simp: crawl_single_page_def Let_def split: prod.splits sum.splits if_splits)

lemma is_internal_link_True: "is_internal_link E start u = Inr True \<longleftrightarrow> internal E start u"
  by (auto simp: is_internal_link_def internal_def split: sum.splits)

lemma add_links_appends:
  assumes "add_links E start follow seen depth links queue = Inr q"
  shows "\<exists>new. q = queue @ new
           \<and> (\<forall>x \<in> set new. snd x = depth + 1 \<and> (follow \<longrightarrow> internal E start (fst x)))"
  using assms
proof (induction links arbitrary: queue)
  case Nil
  then show ?case by simp
next
  case (Cons link links)
  from Cons.prems obtain nlink where n: "normalize_url E link = Inr nlink"
    by (auto split: sum.splits)
  consider (push) "add_links E start follow seen depth links (queue @ [(nlink, depth + 1)]) = Inr q"
      "follow \<longrightarrow> internal E start nlink"
    | (leave) "add_links E start follow seen depth links queue = Inr q"
    using Cons.prems n
    by (auto simp: is_internal_link_True [symmetric] split: sum.splits if_splits)
  then show ?case
  proof cases
    case push
    from Cons.IH [OF push(1)] obtain new where
      "q = (queue @ [(nlink, depth + 1)]) @ new"
      "\<forall>x \<in> set new. snd x = depth + 1 \<and> (follow \<longrightarrow> internal E start (fst x))"
      by blast
    with push(2) have "q = queue @ ((nlink, depth + 1) # new)
        \<and> (\<forall>x \<in> set ((nlink, depth + 1) # new). snd x = depth + 1 \<and> (follow \<longrightarrow> internal E start (fst x)))"
      by simp
    then show ?thesis by blast
  next
    case leave
    from Cons.IH [OF leave] show ?thesis .
  qed
qed

text \<open>
  What one iteration does: it skips a URL that is visited or too deep, and nothing else
  changes; or it fetches the URL, marks it visited, counts it, appends at most one page
  record for it and appends links to the queue.
\<close>

lemma crawl_iteration_skip:
  assumes "to_visit s = (url, depth) # rest" and "url \<in> visited s \<or> cfg_max_depth c < depth"
  shows "crawl_iteration E c s p = (Inr (s\<lparr>to_visit := rest\<rparr>), p)"
  using assms by (simp add: crawl_iteration_def)

lemma crawl_iteration_process:
  assumes it: "crawl_iteration E c s p = (res, p')"
    and q: "to_visit s = (url, depth) # rest"
    and new: "url \<notin> visited s" "depth \<le> cfg_max_depth c"
  shows "fetched (stdout p') = fetched (stdout p) @ [url]
         \<and> (\<forall>s'. res = Inr s' \<longrightarrow>
               visited s' = insert url (visited s)
               \<and> pages_processed s' = pages_processed s + 1
               \<and> (results s' = results s
                    \<or> (\<exists>title content. results s' = results s @
                          [\<lparr>pr_url = url, pr_title = title, pr_content = content, pr_depth = Some depth\<rparr>]))
               \<and> (\<exists>new. to_visit s' = rest @ new
                      \<and> (\<forall>x \<in> set new. snd x = depth + 1
                             \<and> (cfg_follow_internal_only c \<longrightarrow> internal E (cfg_start_url c) (fst x)))))"
proof -
  define s1 where "s1 = s\<lparr>to_visit := rest, visited := insert url (visited s),
                          pages_processed := pages_processed s + 1\<rparr>"
  define p1 where "p1 = print_event (ProcessingPage (pages_processed s1) (cfg_max_pages c) url
                           (int (length rest) + pages_processed s1) depth) p"
  obtain r1 p2 where csp: "crawl_single_page E url p1 = (r1, p2)" by (cases "crawl_single_page E url p1")
  have f1: "fetched (stdout p1) = fetched (stdout p)"
    by (simp add: p1_def print_event_def fetched_append)
  from it q new csp [unfolded p1_def s1_def] have unfolded:
    "(res, p') = (case r1 of Inl e \<Rightarrow> (Inl e, p2)
        | Inr page_result \<Rightarrow>
            (case page_result of
               Failed u err \<Rightarrow> (Inr s1, p2)
             | Fetched u content title links \<Rightarrow>
                 (let s2 = s1\<lparr>results := results s1 @
                             [\<lparr>pr_url = u, pr_title = title, pr_content = content,
                               pr_depth = Some depth\<rparr>]\<rparr>
                  in if depth < cfg_max_depth c then
                       (case add_links E (cfg_start_url c) (cfg_follow_internal_only c)
                               (visited s2) depth links (to_visit s2) of
                          Inl e \<Rightarrow> (Inl e, p2)
                        | Inr queue \<Rightarrow> (Inr (s2\<lparr>to_visit := queue\<rparr>), p2))
                     else (Inr s2, p2))))"
    unfolding s1_def by (simp add: crawl_iteration_def Let_def)
  then have p': "p' = p2"
    by (auto simp: Let_def split: sum.splits page_result.splits if_splits)
  have fetched: "fetched (stdout p') = fetched (stdout p) @ [url]"
    using crawl_single_page_fetched [OF csp] f1 p' by simp
  have "visited s' = insert url (visited s)
        \<and> pages_processed s' = pages_processed s + 1
        \<and> (results s' = results s
             \<or> (\<exists>title content. results s' = results s @
                   [\<lparr>pr_url = url, pr_title = title, pr_content = content, pr_depth = Some depth\<rparr>]))
        \<and> (\<exists>new. to_visit s' = rest @ new
               \<and> (\<forall>x \<in> set new. snd x = depth + 1
                      \<and> (cfg_follow_internal_only c \<longrightarrow> internal E (cfg_start_url c) (fst x))))"
    if res: "res = Inr s'" for s'
  proof (cases r1)
    case (Inl e)
    with unfolded res show ?thesis by simp
  next
    case (Inr page_result)
    show ?thesis
    proof (cases page_result)
      case (Failed u err)
      with Inr unfolded res have "s' = s1" by simp
      then show ?thesis by (simp add: s1_def)
    next
      case (Fetched u content title links)
      with Inr csp have u: "u = url" by (simp add: crawl_single_page_url)
      define s2 where "s2 = s1\<lparr>results := results s1 @
                             [\<lparr>pr_url = url, pr_title = title, pr_content = content,
                               pr_depth = Some depth\<rparr>]\<rparr>"
      show ?thesis
      proof (cases "depth < cfg_max_depth c")
        case False
        with Fetched Inr unfolded res u have "s' = s2" by (simp add: s2_def)
        then show ?thesis by (simp add: s2_def s1_def)
      next
        case True
        with Fetched Inr unfolded res u obtain queue where
          al: "add_links E (cfg_start_url c) (cfg_follow_internal_only c)
                 (visited s2) depth links (to_visit s2) = Inr queue"
          and s': "s' = s2\<lparr>to_visit := queue\<rparr>"
          by (auto simp: s2_def Let_def split: sum.splits)
        from add_links_appends [OF al] obtain new where
          "queue = to_visit s2 @ new"
          "\<forall>x \<in> set new. snd x = depth + 1
              \<and> (cfg_follow_internal_only c \<longrightarrow> internal E (cfg_start_url c) (fst x))"
          by blast
        with s' show ?thesis by (auto simp: s2_def s1_def)
      qed
    qed
  qed
  with fetched show ?thesis by blast
qed

text \<open>
  The rule for the loop: an invariant that every iteration keeps holds when the loop
  stops, whether the condition fails or an iteration raises.
\<close>

lemma crawl_loop_rule:
  assumes "I s p"
    and "\<And>s p s' p'. I s p \<Longrightarrow> loop_cond c s \<Longrightarrow> crawl_iteration E c s p = (Inr s', p') \<Longrightarrow> I s' p'"
    and "\<And>s p e p'. I s p \<Longrightarrow> loop_cond c s \<Longrightarrow> crawl_iteration E c s p = (Inl e, p') \<Longrightarrow> Q (Inl e) p'"
    and "\<And>s p. I s p \<Longrightarrow> \<not> loop_cond c s \<Longrightarrow> Q (Inr s) p"
  shows "Q (fst (crawl_loop E c s p)) (snd (crawl_loop E c s p))"
  using assms
proof (induction E c s p rule: crawl_loop.induct)
  case (1 E c s p)
  note inv = "1.prems"(1) and step = "1.prems"(2) and raised = "1.prems"(3)
    and stopped = "1.prems"(4)
  show ?case
  proof (cases "loop_cond c s")
    case False
    with stopped [OF inv] show ?thesis by (simp add: crawl_loop.simps)
  next
    case True
    obtain res p' where it: "crawl_iteration E c s p = (res, p')"
      by (cases "crawl_iteration E c s p")
    show ?thesis
    proof (cases res)
      case (Inl e)
      with raised [OF inv True] it True show ?thesis
        by (simp add: crawl_loop.simps [of E c s p])
    next
      case (Inr s')
      with it have it': "crawl_iteration E c s p = (Inr s', p')" by simp
      from step [OF inv True it'] have "I s' p'" .
      from "1.IH" [OF True it' [symmetric] refl this step raised stopped] it' True
      show ?thesis by (simp add: crawl_loop.simps [of E c s p])
    qed
  qed
qed

lemma loop_cond_pop: "loop_cond c s \<Longrightarrow> \<exists>url depth rest. to_visit s = (url, depth) # rest"
  by (cases "to_visit s") (auto simp: loop_cond_def)

text \<open>The crawls of the two-page site, run step by step.\<close>

lemmas site_defs = site_def site_arun_def site_page_def url_A_def url_B_def quiet_def
  portal_def portal_arun_def url_other_def mapped_def url_C_def url_sitemap_def
  sitemap_elems_def sitemap_ns_def page_A_def page_B_def opts_5_10_def no_options_def

lemmas crawl_defs = crawl_recursive_def crawl_cfg_of_def initial_state_def loop_cond_def
  crawl_iteration_def crawl_single_page_def print_event_def page_links_def page_title_def
  html_links_def error_msg_def normalize_url_def is_internal_link_def
  extract_title_from_content_def startswith_def strip_def isspace_def nl_def

lemma site_crawl:
  "crawl_recursive site url_A opts_5_10 quiet =
     (Inr [page_A, page_B],
      \<lparr>world = (), stdout = [ProcessingPage 1 10 url_A 1 0, Fetching url_A,
                               ProcessingPage 2 10 url_B 2 1, Fetching url_B]\<rparr>)"
  by (simp add: site_defs crawl_defs std_defs crawl_loop.simps)

lemma site_crawl_negative:
  "crawl_recursive site url_A (no_options\<lparr>maxPages := Some (- 1)\<rparr>) quiet = (Inr [], quiet)"
  by (simp add: site_defs crawl_defs std_defs crawl_loop.simps)

lemma portal_first_step:
  "crawl_steps (Suc 0) portal (crawl_cfg_of url_A no_options) (initial_state url_A) quiet =
     Some (\<lparr>visited = {url_A}, to_visit = [(url_B, 1)],
             results = [page_A], pages_processed = 1\<rparr>,
           \<lparr>world = (), stdout = [ProcessingPage 1 50 url_A 1 0, Fetching url_A]\<rparr>)"
  by (simp add: site_defs crawl_defs std_defs)

lemma within_budget_step:
  assumes inv: "within_budget c s" and cond: "loop_cond c s"
    and it: "crawl_iteration E c s p = (Inr s', p')"
  shows "within_budget c s'"
proof -
  from loop_cond_pop [OF cond] obtain url depth rest where q: "to_visit s = (url, depth) # rest"
    by blast
  show ?thesis
  proof (cases "url \<in> visited s \<or> cfg_max_depth c < depth")
    case True
    from crawl_iteration_skip [OF q True, of E p] it have "s' = s\<lparr>to_visit := rest\<rparr>" by simp
    with inv show ?thesis by (simp add: within_budget_def)
  next
    case False
    then have new: "url \<notin> visited s" "depth \<le> cfg_max_depth c" by auto
    from crawl_iteration_process [OF it q new]
    have pp: "pages_processed s' = pages_processed s + 1"
      and rs: "results s' = results s
                \<or> (\<exists>title content. results s' = results s @
                      [\<lparr>pr_url = url, pr_title = title, pr_content = content, pr_depth = Some depth\<rparr>])"
      by blast+
    from cond have lt: "pages_processed s < cfg_max_pages c" by (simp add: loop_cond_def)
    from rs show ?thesis
    proof
      assume "results s' = results s"
      with inv pp lt show ?thesis by (auto simp: within_budget_def)
    next
      assume "\<exists>title content. results s' = results s @
                [\<lparr>pr_url = url, pr_title = title, pr_content = content, pr_depth = Some depth\<rparr>]"
      with inv pp lt new(2) show ?thesis by (auto simp: within_budget_def)
    qed
  qed
qed

lemma crawl_loop_within_budget:
  assumes "within_budget c s" and "crawl_loop E c s p = (Inr s', p')"
  shows "within_budget c s'"
proof -
  have "(case fst (crawl_loop E c s p) of Inl e \<Rightarrow> True | Inr s' \<Rightarrow> within_budget c s')"
    by (rule crawl_loop_rule [where I = "\<lambda>s p. within_budget c s"
                                and Q = "\<lambda>r p. case r of Inl e \<Rightarrow> True | Inr s' \<Rightarrow> within_budget c s'"])
       (use assms(1) within_budget_step in \<open>auto\<close>)
  with assms(2) show ?thesis by simp
qed

text \<open>
  C1, as the code has it: in the results a recursive crawl returns, every page record
  has a depth, at most \<open>max_depth\<close>, and there are at most \<open>max_pages\<close> records when
  \<open>max_pages\<close> is not negative, and none when it is: at most \<open>max 0 max_pages\<close>.
  This holds for every start URL, all options and every behaviour of the collaborators.
\<close>

theorem crawl_recursive_bounds:
  assumes "crawl_recursive E start options p = (Inr pages, p')"
  shows "(\<forall>r \<in> set pages. \<exists>d. pr_depth r = Some d \<and> d \<le> cfg_max_depth (crawl_cfg_of start options))
         \<and> int (length pages) \<le> max 0 (cfg_max_pages (crawl_cfg_of start options))"
proof -
  from assms obtain seed s where
    loop: "crawl_loop E (crawl_cfg_of start options) (initial_state seed) p = (Inr s, p')"
    and pages: "pages = results s"
    by (auto simp: crawl_recursive_def split: sum.splits prod.splits)
  have "within_budget (crawl_cfg_of start options) (initial_state seed)"
    by (simp add: within_budget_def initial_state_def)
  from crawl_loop_within_budget [OF this loop] pages show ?thesis
    by (auto simp: within_budget_def)
qed

text \<open>The crawl of the two-page site with \<open>maxDepth = 5\<close> and \<open>maxPages = 10\<close>.\<close>

theorem crawl_recursive_bounds_witness:
  "crawl_recursive site url_A opts_5_10 quiet =
     (Inr [page_A, page_B],
      \<lparr>world = (), stdout = [ProcessingPage 1 10 url_A 1 0, Fetching url_A,
                               ProcessingPage 2 10 url_B 2 1, Fetching url_B]\<rparr>)
   \<and> pr_depth page_A = Some 0 \<and> pr_depth page_B = Some 1
   \<and> cfg_max_depth (crawl_cfg_of url_A opts_5_10) = 5
   \<and> int (length [page_A, page_B]) \<le> max 0 (cfg_max_pages (crawl_cfg_of url_A opts_5_10))"
  using crawl_recursive_bounds [OF site_crawl] site_crawl
  by (simp add: page_A_def page_B_def crawl_cfg_of_def opts_5_10_def)

text \<open>
  C1 as stated fails for a negative page budget: with \<open>maxPages = -1\<close> the loop
  condition fails at once, the crawl returns no page record, and 0 is not at most -1.
\<close>

theorem crawl_recursive_bounds_counterexample:
  "crawl_recursive site url_A (no_options\<lparr>maxPages := Some (- 1)\<rparr>) quiet = (Inr [], quiet)
   \<and> cfg_max_pages (crawl_cfg_of url_A (no_options\<lparr>maxPages := Some (- 1)\<rparr>)) = - 1
   \<and> \<not> int (length ([] :: page list)) \<le> - 1"
  using site_crawl_negative by (simp add: crawl_cfg_of_def no_options_def)

lemma fetched_once_step:
  assumes inv: "fetched_once before s p" and cond: "loop_cond c s"
    and it: "crawl_iteration E c s p = (Inr s', p')"
  shows "fetched_once before s' p'"
proof -
  from loop_cond_pop [OF cond] obtain url depth rest where q: "to_visit s = (url, depth) # rest"
    by blast
  from inv obtain new where new: "fetched (stdout p) = before @ new" "distinct new"
    "set new = visited s" "distinct (map pr_url (results s))"
    "set (map pr_url (results s)) \<subseteq> set new"
    unfolding fetched_once_def by blast
  show ?thesis
  proof (cases "url \<in> visited s \<or> cfg_max_depth c < depth")
    case True
    from crawl_iteration_skip [OF q True, of E p] it have "s' = s\<lparr>to_visit := rest\<rparr>" "p' = p"
      by simp_all
    with inv show ?thesis by (simp add: fetched_once_def)
  next
    case False
    then have fresh: "url \<notin> visited s" "depth \<le> cfg_max_depth c" by auto
    from crawl_iteration_process [OF it q fresh]
    have f: "fetched (stdout p') = fetched (stdout p) @ [url]"
      and v: "visited s' = insert url (visited s)"
      and rs: "results s' = results s
                \<or> (\<exists>title content. results s' = results s @
                      [\<lparr>pr_url = url, pr_title = title, pr_content = content, pr_depth = Some depth\<rparr>])"
      by blast+
    have "fetched (stdout p') = before @ (new @ [url])" using f new(1) by simp
    moreover have "distinct (new @ [url])" using new(2,3) fresh(1) by simp
    moreover have "set (new @ [url]) = visited s'" using new(3) v by auto
    moreover have "distinct (map pr_url (results s')) \<and> set (map pr_url (results s')) \<subseteq> set (new @ [url])"
    proof -
      from new(3,5) have old: "\<forall>r \<in> set (results s). pr_url r \<in> visited s" by auto
      with fresh(1) have "url \<notin> set (map pr_url (results s))" by auto
      with rs new(3,4) old show ?thesis by auto
    qed
    ultimately show ?thesis unfolding fetched_once_def by blast
  qed
qed

lemma fetched_once_raised:
  assumes inv: "fetched_once before s p" and cond: "loop_cond c s"
    and it: "crawl_iteration E c s p = (Inl e, p')"
  shows "\<exists>new. fetched (stdout p') = before @ new \<and> distinct new"
proof -
  from loop_cond_pop [OF cond] obtain url depth rest where q: "to_visit s = (url, depth) # rest"
    by blast
  from inv obtain new where new: "fetched (stdout p) = before @ new" "distinct new"
    "set new = visited s"
    unfolding fetched_once_def by blast
  show ?thesis
  proof (cases "url \<in> visited s \<or> cfg_max_depth c < depth")
    case True
    from crawl_iteration_skip [OF q True, of E p] it show ?thesis by simp
  next
    case False
    then have fresh: "url \<notin> visited s" "depth \<le> cfg_max_depth c" by auto
    from crawl_iteration_process [OF it q fresh]
    have f: "fetched (stdout p') = fetched (stdout p) @ [url]" by blast
    have "fetched (stdout p') = before @ (new @ [url])" using f new(1) by simp
    moreover have "distinct (new @ [url])" using new(2,3) fresh(1) by simp
    ultimately show ?thesis by blast
  qed
qed

lemma crawl_loop_fetched_once:
  assumes "fetched_once before s p"
  shows "\<exists>new. fetched (stdout (snd (crawl_loop E c s p))) = before @ new \<and> distinct new
           \<and> (\<forall>s'. fst (crawl_loop E c s p) = Inr s' \<longrightarrow>
                 distinct (map pr_url (results s')) \<and> set (map pr_url (results s')) \<subseteq> set new)"
proof (rule crawl_loop_rule [where I = "fetched_once before"
         and Q = "\<lambda>r p'. \<exists>new. fetched (stdout p') = before @ new \<and> distinct new
                   \<and> (\<forall>s'. r = Inr s' \<longrightarrow>
                         distinct (map pr_url (results s')) \<and> set (map pr_url (results s')) \<subseteq> set new)"])
  show "fetched_once before s p" by (rule assms)
next
  fix s p s' p'
  assume "fetched_once before s p" "loop_cond c s" "crawl_iteration E c s p = (Inr s', p')"
  then show "fetched_once before s' p'" by (rule fetched_once_step)
next
  fix s p e p'
  assume "fetched_once before s p" "loop_cond c s" "crawl_iteration E c s p = (Inl e, p')"
  from fetched_once_raised [OF this]
  show "\<exists>new. fetched (stdout p') = before @ new \<and> distinct new
          \<and> (\<forall>s'. Inl e = Inr s' \<longrightarrow>
                distinct (map pr_url (results s')) \<and> set (map pr_url (results s')) \<subseteq> set new)"
    by simp
next
  fix s :: crawl_state and p :: "'a proc"
  assume "fetched_once before s p"
  then show "\<exists>new. fetched (stdout p) = before @ new \<and> distinct new
          \<and> (\<forall>s'. Inr s = Inr s' \<longrightarrow>
                distinct (map pr_url (results s')) \<and> set (map pr_url (results s')) \<subseteq> set new)"
    unfolding fetched_once_def by auto
qed

text \<open>
  C2: the URLs that a recursive crawl passes to \<open>crawl_single_page\<close>, in the order of
  the calls, are distinct, whether the crawl returns or raises; and when it returns,
  its page records have distinct URLs, all among the fetched ones. A URL enters the
  visited set when it is popped for processing, and a popped URL that is visited is
  skipped.
\<close>

theorem crawl_recursive_fetches_once:
  "\<exists>new. fetched (stdout (snd (crawl_recursive E start options p))) = fetched (stdout p) @ new
         \<and> distinct new
         \<and> (\<forall>pages. fst (crawl_recursive E start options p) = Inr pages \<longrightarrow>
               distinct (map pr_url pages) \<and> set (map pr_url pages) \<subseteq> set new)"
proof (cases "normalize_url E start")
  case (Inl e)
  then have "crawl_recursive E start options p = (Inl e, p)" by (simp add: crawl_recursive_def)
  then have "fetched (stdout (snd (crawl_recursive E start options p))) = fetched (stdout p) @ []
      \<and> distinct ([] :: string list)
      \<and> (\<forall>pages. fst (crawl_recursive E start options p) = Inr pages \<longrightarrow>
               distinct (map pr_url pages) \<and> set (map pr_url pages) \<subseteq> set [])"
    by simp
  then show ?thesis by blast
next
  case (Inr seed)
  let ?loop = "crawl_loop E (crawl_cfg_of start options) (initial_state seed) p"
  have "fetched_once (fetched (stdout p)) (initial_state seed) p"
    by (simp add: fetched_once_def initial_state_def)
  from crawl_loop_fetched_once [OF this, of E "crawl_cfg_of start options"]
  obtain new where new: "fetched (stdout (snd ?loop)) = fetched (stdout p) @ new" "distinct new"
    "\<forall>s'. fst ?loop = Inr s' \<longrightarrow>
        distinct (map pr_url (results s')) \<and> set (map pr_url (results s')) \<subseteq> set new"
    by blast
  have s: "snd (crawl_recursive E start options p) = snd ?loop"
    using Inr by (simp add: crawl_recursive_def split: prod.splits sum.splits)
  have r: "\<exists>s'. fst ?loop = Inr s' \<and> pages = results s'"
    if "fst (crawl_recursive E start options p) = Inr pages" for pages
    using that Inr by (auto simp: crawl_recursive_def split: prod.splits sum.splits)
  have "\<forall>pages. fst (crawl_recursive E start options p) = Inr pages \<longrightarrow>
               distinct (map pr_url pages) \<and> set (map pr_url pages) \<subseteq> set new"
    using r new(3) by blast
  with new(1,2) s show ?thesis by auto
qed

text \<open>
  The crawl of the two-page site: B links back to A, which is queued again and skipped
  when it is popped.
\<close>

theorem crawl_recursive_fetches_once_witness:
  "fetched (stdout (snd (crawl_recursive site url_A opts_5_10 quiet))) = [url_A, url_B]
   \<and> fst (crawl_recursive site url_A opts_5_10 quiet) = Inr [page_A, page_B]
   \<and> distinct [url_A, url_B]
   \<and> distinct (map pr_url [page_A, page_B])"
  using crawl_recursive_fetches_once [of site url_A opts_5_10 quiet] site_crawl
  by (simp add: page_A_def page_B_def url_A_def url_B_def quiet_def)

text \<open>
  C3: the loop stops. From every state, with every configuration and for every
  behaviour of the collaborators, some number of iterations is enough for the loop to
  leave its result; \<open>crawl_fuel\<close> gives \<open>None\<close> while the loop is still running.
  On the site where A links to B and B links to A, with \<open>maxDepth = 5\<close> and
  \<open>maxPages = 10\<close>, the crawl returns two page records: A at depth 0, B at depth 1.
\<close>

theorem crawl_loop_terminates:
  "(\<exists>n. crawl_fuel n E c s p = Some (crawl_loop E c s p))
   \<and> fst (crawl_recursive site url_A opts_5_10 quiet) =
       Inr [\<lparr>pr_url = url_A, pr_title = ''A'', pr_content = ''# A'', pr_depth = Some 0\<rparr>,
            \<lparr>pr_url = url_B, pr_title = ''B'', pr_content = ''# B'', pr_depth = Some 1\<rparr>]"
proof
  show "\<exists>n. crawl_fuel n E c s p = Some (crawl_loop E c s p)"
  proof (induction E c s p rule: crawl_loop.induct)
    case (1 E c s p)
    show ?case
    proof (cases "loop_cond c s")
      case False
      then have "crawl_fuel 0 E c s p = Some (crawl_loop E c s p)"
        by (simp add: crawl_loop.simps)
      then show ?thesis ..
    next
      case True
      obtain res p' where it: "crawl_iteration E c s p = (res, p')"
        by (cases "crawl_iteration E c s p")
      show ?thesis
      proof (cases res)
        case (Inl e)
        with it True have "crawl_fuel (Suc 0) E c s p = Some (crawl_loop E c s p)"
          by (simp add: crawl_loop.simps [of E c s p])
        then show ?thesis ..
      next
        case (Inr s')
        with it have it': "crawl_iteration E c s p = (Inr s', p')" by simp
        from "1.IH" [OF True it' [symmetric] refl] obtain n
          where "crawl_fuel n E c s' p' = Some (crawl_loop E c s' p')" ..
        with it' True have "crawl_fuel (Suc n) E c s p = Some (crawl_loop E c s p)"
          by (simp add: crawl_loop.simps [of E c s p])
        then show ?thesis ..
      qed
    qed
  qed
next
  show "fst (crawl_recursive site url_A opts_5_10 quiet) =
       Inr [\<lparr>pr_url = url_A, pr_title = ''A'', pr_content = ''# A'', pr_depth = Some 0\<rparr>,
            \<lparr>pr_url = url_B, pr_title = ''B'', pr_content = ''# B'', pr_depth = Some 1\<rparr>]"
    using site_crawl by (simp add: page_A_def page_B_def)
qed

lemma crawl_iteration_queue_internal:
  assumes follow: "cfg_follow_internal_only c" and cond: "loop_cond c s"
    and it: "crawl_iteration E c s p = (Inr s', p')"
    and q: "\<forall>x \<in> set (tl (to_visit s)). internal E (cfg_start_url c) (fst x)"
  shows "\<forall>x \<in> set (to_visit s'). internal E (cfg_start_url c) (fst x)"
proof -
  from loop_cond_pop [OF cond] obtain url depth rest where pop: "to_visit s = (url, depth) # rest"
    by blast
  show ?thesis
  proof (cases "url \<in> visited s \<or> cfg_max_depth c < depth")
    case True
    from crawl_iteration_skip [OF pop True, of E p] it have "s' = s\<lparr>to_visit := rest\<rparr>" by simp
    with q pop show ?thesis by simp
  next
    case False
    then have fresh: "url \<notin> visited s" "depth \<le> cfg_max_depth c" by auto
    from crawl_iteration_process [OF it pop fresh] follow obtain new where
      "to_visit s' = rest @ new" "\<forall>x \<in> set new. internal E (cfg_start_url c) (fst x)"
      by blast
    with q pop show ?thesis by auto
  qed
qed

lemma crawl_steps_queue_internal:
  assumes follow: "cfg_follow_internal_only c"
  shows "crawl_steps (Suc n) E c s p = Some (s', p') \<Longrightarrow>
         \<forall>x \<in> set (tl (to_visit s)). internal E (cfg_start_url c) (fst x) \<Longrightarrow>
         \<forall>x \<in> set (to_visit s'). internal E (cfg_start_url c) (fst x)"
proof (induction n arbitrary: s p)
  case 0
  then obtain cond: "loop_cond c s" and it: "crawl_iteration E c s p = (Inr s', p')"
    by (auto split: if_splits prod.splits sum.splits)
  from crawl_iteration_queue_internal [OF follow cond it "0.prems"(2)] show ?case .
next
  case (Suc n)
  from Suc.prems(1) obtain s1 p1 where cond: "loop_cond c s"
    and it: "crawl_iteration E c s p = (Inr s1, p1)"
    and rest: "crawl_steps (Suc n) E c s1 p1 = Some (s', p')"
    by (auto simp del: crawl_steps.simps simp add: crawl_steps.simps(2) [of "Suc n"]
             split: if_splits prod.splits sum.splits)
  from crawl_iteration_queue_internal [OF follow cond it Suc.prems(2)]
  have "\<forall>x \<in> set (to_visit s1). internal E (cfg_start_url c) (fst x)" .
  then have "\<forall>x \<in> set (tl (to_visit s1)). internal E (cfg_start_url c) (fst x)"
    by (cases "to_visit s1") auto
  from Suc.IH [OF rest this] show ?case .
qed

text \<open>
  C4: in a recursive crawl with \<open>follow_internal_only\<close> set, after the first
  iteration (which pops the seed) and after every later one, every pair in the pending
  queue has a URL whose network location is that of the start URL: \<open>urlparse\<close>
  gives both, and they are equal. Every pair pushed is in the queue at the end of the
  iteration that pushes it.
\<close>

theorem queue_shares_netloc:
  assumes "cfg_follow_internal_only c"
    and "crawl_steps (Suc n) E c (initial_state seed) p = Some (s, p')"
  shows "\<forall>x \<in> set (to_visit s).
           \<exists>loc. urlparse_netloc E (cfg_start_url c) = Inr loc \<and> urlparse_netloc E (fst x) = Inr loc"
proof -
  have "\<forall>x \<in> set (tl (to_visit (initial_state seed))). internal E (cfg_start_url c) (fst x)"
    by (simp add: initial_state_def)
  from crawl_steps_queue_internal [OF assms(1) assms(2) this] show ?thesis
    by (simp add: internal_def)
qed

text \<open>
  The first iteration on the site where A links to B and to another host: only B is
  queued.
\<close>

theorem queue_shares_netloc_witness:
  "cfg_follow_internal_only (crawl_cfg_of url_A no_options)
   \<and> crawl_steps (Suc 0) portal (crawl_cfg_of url_A no_options) (initial_state url_A) quiet =
       Some (\<lparr>visited = {url_A}, to_visit = [(url_B, 1)],
               results = [page_A], pages_processed = 1\<rparr>,
             \<lparr>world = (), stdout = [ProcessingPage 1 50 url_A 1 0, Fetching url_A]\<rparr>)
   \<and> urlparse_netloc portal (cfg_start_url (crawl_cfg_of url_A no_options)) = Inr ''x.test''
   \<and> urlparse_netloc portal url_B = Inr ''x.test''
   \<and> urlparse_netloc portal url_other = Inr ''other.test''"
  using queue_shares_netloc [OF _ portal_first_step] portal_first_step
  by (simp add: crawl_cfg_of_def site_defs std_defs)

section \<open>Theorems: the dispatcher and the aggregator\<close>

lemmas scrape_defs = scrape_url_def scrape_body_def resolve_mode_def collect_results_def
  aggregate_def is_txt_def is_sitemap_def endswith_def parse_sitemap_def page_header_def

lemma combine_content_concat:
  "combine_content acc pages = acc @ concat (map (\<lambda>page. page_header page @ pr_content page) pages)"
  by (induction pages arbitrary: acc) simp_all

lemma site_scrape_auto:
  "scrape_url site url_A ''auto'' opts_5_10 quiet =
     (Result \<lparr>res_title = ''A'',
              res_content = [nl, nl] @ ''## A'' @ [nl] @ ''*Source: https://x.test/a*'' @ [nl, nl] @ ''# A''
                          @ [nl, nl] @ ''## B'' @ [nl] @ ''*Source: https://x.test/b*'' @ [nl, nl] @ ''# B'',
              res_excerpt = ''A Source: https://x.test/a A B Source: https://x.test/b B'',
              res_url = url_A, res_pagesCount = 2, res_mode = ''recursive'',
              res_pages = Some [(url_A, ''A''), (url_B, ''B'')]\<rparr>,
      \<lparr>world = (), stdout = [Starting, ProcessingPage 1 10 url_A 1 0, Fetching url_A,
                               ProcessingPage 2 10 url_B 2 1, Fetching url_B]\<rparr>)"
  by (simp add: site_defs crawl_defs std_defs scrape_defs excerpt_defs crawl_loop.simps)

lemma site_scrape_single:
  "scrape_url site url_A ''single'' opts_5_10 quiet =
     (Result \<lparr>res_title = ''A'', res_content = ''# A'', res_excerpt = ''A'',
              res_url = url_A, res_pagesCount = 1, res_mode = ''single'', res_pages = None\<rparr>,
      \<lparr>world = (), stdout = [Starting, Fetching url_A]\<rparr>)"
  by (simp add: site_defs crawl_defs std_defs scrape_defs excerpt_defs)

lemma site_collect:
  "collect_results site url_A ''recursive'' opts_5_10 (print_event Starting quiet) =
     (Inr [page_A, page_B],
      \<lparr>world = (), stdout = [Starting, ProcessingPage 1 10 url_A 1 0, Fetching url_A,
                               ProcessingPage 2 10 url_B 2 1, Fetching url_B]\<rparr>)"
  by (simp add: site_defs crawl_defs std_defs collect_results_def crawl_loop.simps)

lemma aggregate_many:
  assumes "1 < length pages"
  shows "aggregate url mode pages =
           Result \<lparr>res_title = pr_title (hd pages),
                   res_content = concat (map (\<lambda>page. page_header page @ pr_content page) pages),
                   res_excerpt = create_excerpt (concat (map (\<lambda>page. page_header page @ pr_content page) pages)) 300,
                   res_url = url,
                   res_pagesCount = int (length pages),
                   res_mode = mode,
                   res_pages = Some (map (\<lambda>page. (pr_url page, pr_title page)) pages)\<rparr>"
proof -
  from assms obtain first second rest where pages: "pages = first # second # rest"
    by (cases pages; cases "tl pages") auto
  show ?thesis
    unfolding aggregate_def pages [symmetric] by (simp add: pages combine_content_concat)
qed

text \<open>
  C6: when more than one page record was collected, in whatever mode, the aggregated
  result is a success whose content is the concatenation, in the order of the list, of
  each page's header (two newlines, \<open>## \<close> and the title, a newline, \<open>*Source: \<close>,
  the URL and \<open>*\<close>, two newlines) followed by its content, so one header for each
  page; its title is the title of the first page, \<open>pagesCount\<close> is the number of
  pages, and \<open>pages\<close> lists the URL and title of every page in the same order. It is
  what \<open>scrape_url\<close> returns when the crawler starts, the mode is resolved, the pages
  are collected and the crawler stops without an exception.
\<close>

theorem aggregate_combines:
  assumes "1 < length pages"
  shows "let combined = concat (map (\<lambda>page. [nl, nl] @ ''## '' @ pr_title page @ [nl]
                           @ ''*Source: '' @ pr_url page @ ''*'' @ [nl, nl] @ pr_content page) pages);
             result = Result \<lparr>res_title = pr_title (hd pages),
                              res_content = combined,
                              res_excerpt = create_excerpt combined 300,
                              res_url = url,
                              res_pagesCount = int (length pages),
                              res_mode = resolved,
                              res_pages = Some (map (\<lambda>page. (pr_url page, pr_title page)) pages)\<rparr>
         in aggregate url resolved pages = result
            \<and> (\<forall>w1 p2 w2.
                  crawler_enter E (world (print_event Starting p)) = (Inr (), w1)
                  \<and> resolve_mode E url mode = Inr resolved
                  \<and> collect_results E url resolved options (print_event Starting p\<lparr>world := w1\<rparr>)
                      = (Inr pages, p2)
                  \<and> crawler_exit E (world p2) = (Inr (), w2)
                  \<longrightarrow> scrape_url E url mode options p = (result, p2\<lparr>world := w2\<rparr>))"
proof -
  have agg: "aggregate url resolved pages =
      Result \<lparr>res_title = pr_title (hd pages),
              res_content = concat (map (\<lambda>page. [nl, nl] @ ''## '' @ pr_title page @ [nl]
                              @ ''*Source: '' @ pr_url page @ ''*'' @ [nl, nl] @ pr_content page) pages),
              res_excerpt = create_excerpt (concat (map (\<lambda>page. [nl, nl] @ ''## '' @ pr_title page @ [nl]
                              @ ''*Source: '' @ pr_url page @ ''*'' @ [nl, nl] @ pr_content page) pages)) 300,
              res_url = url,
              res_pagesCount = int (length pages),
              res_mode = resolved,
              res_pages = Some (map (\<lambda>page. (pr_url page, pr_title page)) pages)\<rparr>"
    using aggregate_many [OF assms, of url resolved] by (simp add: page_header_def)
  have "scrape_url E url mode options p = (aggregate url resolved pages, p2\<lparr>world := w2\<rparr>)"
    if "crawler_enter E (world (print_event Starting p)) = (Inr (), w1)
        \<and> resolve_mode E url mode = Inr resolved
        \<and> collect_results E url resolved options (print_event Starting p\<lparr>world := w1\<rparr>)
            = (Inr pages, p2)
        \<and> crawler_exit E (world p2) = (Inr (), w2)" for w1 p2 w2
    using that by (simp add: scrape_url_def scrape_body_def Let_def)
  then show ?thesis unfolding Let_def agg [symmetric] by blast
qed

text \<open>
  Three pages aggregated: three headers, in order, and \<open>pagesCount = 3\<close>. And the
  two-page site scraped in the mode \<open>auto\<close>: the two pages of the crawl, combined.
\<close>

theorem aggregate_combines_witness:
  "1 < length three_pages
   \<and> aggregate ''u'' ''sitemap'' three_pages =
       Result \<lparr>res_title = ''T1'',
               res_content = [nl, nl] @ ''## T1'' @ [nl] @ ''*Source: u1*'' @ [nl, nl] @ ''one''
                           @ [nl, nl] @ ''## T2'' @ [nl] @ ''*Source: u2*'' @ [nl, nl] @ ''two''
                           @ [nl, nl] @ ''## T3'' @ [nl] @ ''*Source: u3*'' @ [nl, nl] @ ''three'',
               res_excerpt = ''T1 Source: u1 one T2 Source: u2 two T3 Source: u3 three'',
               res_url = ''u'', res_pagesCount = 3, res_mode = ''sitemap'',
               res_pages = Some [(''u1'', ''T1''), (''u2'', ''T2''), (''u3'', ''T3'')]\<rparr>
   \<and> collect_results site url_A ''recursive'' opts_5_10 (print_event Starting quiet) =
       (Inr [page_A, page_B],
        \<lparr>world = (), stdout = [Starting, ProcessingPage 1 10 url_A 1 0, Fetching url_A,
                                 ProcessingPage 2 10 url_B 2 1, Fetching url_B]\<rparr>)
   \<and> scrape_url site url_A ''auto'' opts_5_10 quiet =
       (Result \<lparr>res_title = ''A'',
                res_content = [nl, nl] @ ''## A'' @ [nl] @ ''*Source: https://x.test/a*'' @ [nl, nl] @ ''# A''
                            @ [nl, nl] @ ''## B'' @ [nl] @ ''*Source: https://x.test/b*'' @ [nl, nl] @ ''# B'',
                res_excerpt = ''A Source: https://x.test/a A B Source: https://x.test/b B'',
                res_url = url_A, res_pagesCount = 2, res_mode = ''recursive'',
                res_pages = Some [(url_A, ''A''), (url_B, ''B'')]\<rparr>,
        \<lparr>world = (), stdout = [Starting, ProcessingPage 1 10 url_A 1 0, Fetching url_A,
                                 ProcessingPage 2 10 url_B 2 1, Fetching url_B]\<rparr>)"
proof -
  have three: "1 < length three_pages" by (simp add: three_pages_def)
  have two: "1 < length [page_A, page_B]" by simp
  have run: "crawler_enter site (world (print_event Starting quiet)) = (Inr (), ())
      \<and> resolve_mode site url_A ''auto'' = Inr ''recursive''
      \<and> collect_results site url_A ''recursive'' opts_5_10 (print_event Starting quiet\<lparr>world := ()\<rparr>)
          = (Inr [page_A, page_B],
             \<lparr>world = (), stdout = [Starting, ProcessingPage 1 10 url_A 1 0, Fetching url_A,
                                      ProcessingPage 2 10 url_B 2 1, Fetching url_B]\<rparr>)
      \<and> crawler_exit site (world \<lparr>world = (), stdout = [Starting, ProcessingPage 1 10 url_A 1 0,
                                 Fetching url_A, ProcessingPage 2 10 url_B 2 1, Fetching url_B]\<rparr>)
          = (Inr (), ())"
  proof -
    have enter: "crawler_enter site (world (print_event Starting quiet)) = (Inr (), ())"
      by (simp add: site_def)
    have resolved: "resolve_mode site url_A ''auto'' = Inr ''recursive''"
      by (simp add: site_def std_defs url_A_def resolve_mode_def is_txt_def is_sitemap_def
            endswith_def startswith_def)
    have same: "print_event Starting quiet\<lparr>world := ()\<rparr> = print_event Starting quiet"
      by (simp add: print_event_def quiet_def)
    have leave: "crawler_exit site (world \<lparr>world = (), stdout = [Starting,
          ProcessingPage 1 10 url_A 1 0, Fetching url_A, ProcessingPage 2 10 url_B 2 1,
          Fetching url_B]\<rparr>) = (Inr (), ())"
      by (simp add: site_def)
    show ?thesis by (simp only: enter resolved same leave site_collect simp_thms)
  qed
  note combined = aggregate_combines [OF three, of "''u''" "''sitemap''", unfolded Let_def, THEN conjunct1]
  note scraped = aggregate_combines [OF two, of url_A "''recursive''" site quiet "''auto''" opts_5_10,
      unfolded Let_def, THEN conjunct2, rule_format, OF run]
  from combined scraped three site_collect show ?thesis
    by (simp add: three_pages_def page_A_def page_B_def url_A_def url_B_def excerpt_defs nl_def)
qed

lemma aggregate_Result:
  assumes "aggregate url mode pages = Result r"
  shows "pages \<noteq> [] \<and> res_mode r = mode \<and> res_pagesCount r = int (length pages)"
  using assms by (auto simp: aggregate_def split: list.splits)


lemma collect_results_modes:
  assumes "collect_results E url mode options p = (Inr pages, p')" and "pages \<noteq> []"
  shows "mode = ''single'' \<or> mode = ''sitemap'' \<or> mode = ''recursive''"
  using assms by (auto simp: collect_results_def split: if_splits)

lemma scrape_body_Result:
  assumes "scrape_body E url mode options p = (Inr (Result r), p')"
  shows "\<exists>resolved pages. resolve_mode E url mode = Inr resolved
           \<and> collect_results E url resolved options p = (Inr pages, p')
           \<and> aggregate url resolved pages = Result r"
  using assms by (auto simp: scrape_body_def split: sum.splits prod.splits)

lemma scrape_url_Result:
  assumes "scrape_url E url mode options p = (Result r, p')"
  shows "\<exists>w p2. crawler_enter E (world (print_event Starting p)) = (Inr (), w)
           \<and> scrape_body E url mode options (print_event Starting p\<lparr>world := w\<rparr>) = (Inr (Result r), p2)"
  using assms
  by (auto simp: scrape_url_def Let_def split: sum.splits prod.splits)

text \<open>
  C10: when \<open>scrape_url\<close> returns a success result, the mode in its metadata is
  \<open>single\<close>, \<open>sitemap\<close> or \<open>recursive\<close>, and it is the mode the dispatcher
  resolved: for the mode \<open>auto\<close> the one chosen from the URL (text file, then
  sitemap, else recursive), for any other mode the caller's own. A mode that is none of
  the three collects no page, so gives no success result.
\<close>

theorem scrape_url_mode:
  assumes "scrape_url E url mode options p = (Result r, p')"
  shows "(res_mode r = ''single'' \<or> res_mode r = ''sitemap'' \<or> res_mode r = ''recursive'')
         \<and> resolve_mode E url mode = Inr (res_mode r)
         \<and> (mode = ''auto'' \<longrightarrow>
               res_mode r = (if is_txt url then ''single''
                             else if is_sitemap E url = Inr True then ''sitemap'' else ''recursive''))
         \<and> (mode \<noteq> ''auto'' \<longrightarrow> res_mode r = mode)"
proof -
  from scrape_url_Result [OF assms] obtain w p2 where
    "scrape_body E url mode options (print_event Starting p\<lparr>world := w\<rparr>) = (Inr (Result r), p2)"
    by blast
  from scrape_body_Result [OF this] obtain resolved pages where
    rm: "resolve_mode E url mode = Inr resolved"
    and cr: "collect_results E url resolved options (print_event Starting p\<lparr>world := w\<rparr>) = (Inr pages, p2)"
    and ag: "aggregate url resolved pages = Result r"
    by blast
  from aggregate_Result [OF ag] have ne: "pages \<noteq> []" and m: "res_mode r = resolved" by simp_all
  from collect_results_modes [OF cr ne] m
  have one: "res_mode r = ''single'' \<or> res_mode r = ''sitemap'' \<or> res_mode r = ''recursive''"
    by simp
  have auto_mode: "res_mode r = (if is_txt url then ''single''
                    else if is_sitemap E url = Inr True then ''sitemap'' else ''recursive'')"
    if "mode = ''auto''"
    using rm m that by (auto simp: resolve_mode_def split: if_splits sum.splits)
  have explicit: "res_mode r = mode" if "mode \<noteq> ''auto''"
    using rm m that by (simp add: resolve_mode_def)
  from one rm m auto_mode explicit show ?thesis by simp
qed

text \<open>
  The two-page site scraped in the mode \<open>auto\<close>, which resolves to \<open>recursive\<close>, and
  in the mode \<open>single\<close>.
\<close>

theorem scrape_url_mode_witness:
  "(\<exists>r p'. scrape_url site url_A ''auto'' opts_5_10 quiet = (Result r, p')
        \<and> res_mode r = ''recursive'' \<and> res_pagesCount r = 2)
   \<and> resolve_mode site url_A ''auto'' = Inr ''recursive''
   \<and> (\<exists>r p'. scrape_url site url_A ''single'' opts_5_10 quiet = (Result r, p')
        \<and> res_mode r = ''single'' \<and> res_pagesCount r = 1)"
  using scrape_url_mode [OF site_scrape_auto] scrape_url_mode [OF site_scrape_single]
  by (simp add: site_scrape_auto site_scrape_single)




text \<open>
  The sitemap mode fetches the URLs of the Python slice \<open>sitemap_urls[:maxPages]\<close>, in
  its order, and all of them unless an exception leaves \<open>crawl_single_page\<close>.
\<close>

lemma crawl_sitemap_urls_fetched:
  assumes "crawl_sitemap_urls E n i urls pages p = (r, p')"
  shows "\<exists>k \<le> length urls. fetched (stdout p') = fetched (stdout p) @ take k urls
           \<and> (\<forall>ps. r = Inr ps \<longrightarrow> k = length urls)"
  using assms
proof (induction urls arbitrary: i pages p)
  case Nil
  then show ?case by simp
next
  case (Cons u urls)
  let ?p1 = "print_event (ProcessingSitemapUrl (i + 1) n u) p"
  obtain r1 p2 where csp: "crawl_single_page E u ?p1 = (r1, p2)"
    by (cases "crawl_single_page E u ?p1")
  have f: "fetched (stdout p2) = fetched (stdout p) @ [u]"
    using crawl_single_page_fetched [OF csp] by (simp add: print_event_def fetched_append)
  show ?case
  proof (cases r1)
    case (Inl e)
    with Cons.prems csp have "r = Inl e" "p' = p2" by simp_all
    with f have "fetched (stdout p') = fetched (stdout p) @ take 1 (u # urls)
                 \<and> (\<forall>ps. r = Inr ps \<longrightarrow> (1::nat) = length (u # urls))" by simp
    moreover have "(1::nat) \<le> length (u # urls)" by simp
    ultimately show ?thesis by blast
  next
    case (Inr page_result)
    with Cons.prems csp obtain pages' where
      "crawl_sitemap_urls E n (i + 1) urls pages' p2 = (r, p')"
      by (cases page_result) simp_all
    from Cons.IH [OF this] obtain k where k: "k \<le> length urls"
      "fetched (stdout p') = fetched (stdout p2) @ take k urls"
      "\<forall>ps. r = Inr ps \<longrightarrow> k = length urls"
      by blast
    with f have "Suc k \<le> length (u # urls)
        \<and> fetched (stdout p') = fetched (stdout p) @ take (Suc k) (u # urls)
        \<and> (\<forall>ps. r = Inr ps \<longrightarrow> Suc k = length (u # urls))"
      by simp
    then show ?thesis by blast
  qed
qed

lemma parse_sitemap_fetched:
  assumes "parse_sitemap E url p = (urls, p')"
  shows "fetched (stdout p') = fetched (stdout p)"
  using assms
  by (auto simp: parse_sitemap_def print_event_def fetched_append split: prod.splits sum.splits if_splits)

lemma sitemap_mode_fetches:
  assumes ps: "parse_sitemap E url (print_event ParsingSitemap p) = (urls, p1)"
    and cr: "collect_results E url ''sitemap'' options p = (r, p')"
  shows "\<exists>k. fetched (stdout p') = fetched (stdout p)
               @ take k (py_take (case maxPages options of None \<Rightarrow> 50 | Some n \<Rightarrow> n) urls)
           \<and> (\<forall>pages. r = Inr pages \<longrightarrow>
                 fetched (stdout p') = fetched (stdout p)
                   @ py_take (case maxPages options of None \<Rightarrow> 50 | Some n \<Rightarrow> n) urls)"
proof -
  let ?cut = "py_take (case maxPages options of None \<Rightarrow> 50 | Some n \<Rightarrow> n) urls"
  have f1: "fetched (stdout p1) = fetched (stdout p)"
    using parse_sitemap_fetched [OF ps] by (simp add: print_event_def fetched_append)
  show ?thesis
  proof (cases "urls = []")
    case True
    with ps cr have "p' = p1" "r = Inr []" by (simp_all add: collect_results_def)
    with f1 True have "fetched (stdout p') = fetched (stdout p) @ take 0 ?cut
        \<and> (\<forall>pages. r = Inr pages \<longrightarrow> fetched (stdout p') = fetched (stdout p) @ ?cut)"
      by (simp add: py_take_def)
    then show ?thesis by blast
  next
    case False
    with ps cr have "crawl_sitemap_urls E (int (length urls)) 0 ?cut [] p1 = (r, p')"
      by (simp add: collect_results_def)
    from crawl_sitemap_urls_fetched [OF this] f1 show ?thesis by auto
  qed
qed

text \<open>
  C7: for the sitemap that lists A, B and C, a budget of two pages fetches A and then
  B. A budget of \<open>-1\<close> fetches A and B as well, because the slice \<open>[:-1]\<close> drops
  the last URL only, where the recursive crawl with the same budget fetches nothing.
\<close>

theorem sitemap_negative_budget:
  "fetched (stdout (snd (scrape_url mapped url_sitemap ''auto'' (no_options\<lparr>maxPages := Some 2\<rparr>) quiet)))
     = [url_A, url_B]
   \<and> fetched (stdout (snd (scrape_url mapped url_sitemap ''auto'' (no_options\<lparr>maxPages := Some (- 1)\<rparr>) quiet)))
     = [url_A, url_B]
   \<and> fst (crawl_recursive site url_A (no_options\<lparr>maxPages := Some (- 1)\<rparr>) quiet) = Inr []"
  using site_crawl_negative
  by (simp add: site_defs crawl_defs std_defs scrape_defs py_take_def)


end
